theory Spec2Isabelle
  imports Complex_Main "HOL-Library.Multiset"
begin

section \<open>Data model of wipsim\<close>

text \<open>
  The program is the five-policy version of \<^verbatim>\<open>wipsim.go\<close> (the latest of the versions in
  the repository; the four-policy version has the same \<^verbatim>\<open>burndownhours\<close>). A run-time
  panic of Go is a value of type \<open>panic\<close>; a function that can panic returns
  \<open>panic + 'a\<close>.
\<close>

datatype panic = IndexOutOfRange | DivideByZero | NilPointer | MakeSliceRange

text \<open>
  Go's \<^verbatim>\<open>int\<close> has 64 bits on the platforms of the program: a value is an integer from
  \<open>- 2\<^sup>6\<^sup>3\<close> to \<open>2\<^sup>6\<^sup>3 - 1\<close> (\<open>int64\<close>), and the result of \<^verbatim>\<open>+\<close>, \<^verbatim>\<open>-\<close> and \<^verbatim>\<open>*\<close> is the
  integer result reduced to that range modulo \<open>2\<^sup>6\<^sup>4\<close> (\<open>wrap64\<close>). The values are
  modelled by \<^typ>\<open>int\<close> and the reduction is written out.
\<close>

definition wrap64 :: "int \<Rightarrow> int" where
  "wrap64 x = (x + 2 ^ 63) mod 2 ^ 64 - 2 ^ 63"

definition int64 :: "int \<Rightarrow> bool" where
  "int64 x = (- (2 ^ 63) \<le> x \<and> x < 2 ^ 63)"

text \<open>
  \<^verbatim>\<open>make\<close> of a slice with room for \<open>n\<close> elements of 8 bytes (an \<^verbatim>\<open>int\<close> or a pointer):
  the run-time function \<^verbatim>\<open>makeslice\<close> panics when \<open>n\<close> is negative or the \<open>8 * n\<close> bytes
  exceed \<^verbatim>\<open>maxAlloc\<close>, which is \<open>2\<^sup>4\<^sup>8\<close> on a 64-bit platform with addresses of 48 bits
  (linux on amd64). Below that limit the allocation is taken to succeed: the exhaustion
  of the machine's memory ends the process with a fatal error, which is no panic and is
  not modelled.
\<close>

definition maxAlloc :: int where
  "maxAlloc = 2 ^ 48"

definition make_ok :: "int \<Rightarrow> bool" where
  "make_ok n = (0 \<le> n \<and> 8 * n \<le> maxAlloc)"

text \<open>\<^verbatim>\<open>type ticket struct { startday, leadtime, endday, effort int; remaining []int }\<close>\<close>

record ticket =
  startday :: int
  leadtime :: int
  endday :: int
  effort :: int
  remaining :: "int list"

text \<open>Reading and writing a slice element; Go panics when the index is out of range.\<close>

definition slice_get :: "'a list \<Rightarrow> int \<Rightarrow> panic + 'a" where
  "slice_get xs i =
     (if 0 \<le> i \<and> i < int (length xs) then Inr (xs ! nat i) else Inl IndexOutOfRange)"

definition slice_set :: "'a list \<Rightarrow> int \<Rightarrow> 'a \<Rightarrow> panic + 'a list" where
  "slice_set xs i v =
     (if 0 \<le> i \<and> i < int (length xs) then Inr (xs[nat i := v]) else Inl IndexOutOfRange)"

section \<open>The burn-down primitive\<close>

text \<open>
  \<^verbatim>\<open>func (t *ticket) burndownhours(day, hoursleft, hours int) int\<close>: the body on the
  receiver object, in the arithmetic of \<^verbatim>\<open>int\<close>; the result is the updated object and the
  returned \<^verbatim>\<open>hoursleft\<close>.
\<close>

definition burndownhours_int64 :: "ticket \<Rightarrow> int \<Rightarrow> int \<Rightarrow> int \<Rightarrow> panic + ticket \<times> int" where
  "burndownhours_int64 t day hoursleft hours =
     (let d1 = wrap64 (day + 1) in
      case slice_get (remaining t) day of
        Inl e \<Rightarrow> Inl e
      | Inr workremain \<Rightarrow>
          let (t1, workremain1, hoursleft1) =
            (if workremain > 0 then
               let (workremain', hoursleft') =
                 (if hoursleft > 0 then
                    let hours1 = (if workremain < hours then workremain else hours);
                        hours2 = (if hoursleft < hours1 then hoursleft else hours1)
                    in (wrap64 (workremain - hours2), wrap64 (hoursleft - hours2))
                  else (workremain, hoursleft))
               in (t\<lparr>endday := day, leadtime := wrap64 (d1 - startday t)\<rparr>,
                   workremain', hoursleft')
             else (t, workremain, hoursleft))
          in case slice_set (remaining t1) d1 workremain1 of
               Inl e \<Rightarrow> Inl e
             | Inr r \<Rightarrow> Inr (t1\<lparr>remaining := r\<rparr>, hoursleft1))"

text \<open>
  The same body with the arithmetic taken in the integers. It is the function of the
  code on every call on which no result leaves the range of \<^verbatim>\<open>int\<close>, in particular on
  every call with an offer \<open>hours\<close> that is not negative (lemma \<open>burndownhours_int64_eq\<close>).
  The policies offer 2 or the capacity left, which lies between 0 and 8; the policies
  and the driver are stated on this form.
\<close>

definition burndownhours :: "ticket \<Rightarrow> int \<Rightarrow> int \<Rightarrow> int \<Rightarrow> panic + ticket \<times> int" where
  "burndownhours t day hoursleft hours =
     (let d1 = day + 1 in
      case slice_get (remaining t) day of
        Inl e \<Rightarrow> Inl e
      | Inr workremain \<Rightarrow>
          let (t1, workremain1, hoursleft1) =
            (if workremain > 0 then
               let (workremain', hoursleft') =
                 (if hoursleft > 0 then
                    let hours1 = (if workremain < hours then workremain else hours);
                        hours2 = (if hoursleft < hours1 then hoursleft else hours1)
                    in (workremain - hours2, hoursleft - hours2)
                  else (workremain, hoursleft))
               in (t\<lparr>endday := day, leadtime := d1 - startday t\<rparr>, workremain', hoursleft')
             else (t, workremain, hoursleft))
          in case slice_set (remaining t1) d1 workremain1 of
               Inl e \<Rightarrow> Inl e
             | Inr r \<Rightarrow> Inr (t1\<lparr>remaining := r\<rparr>, hoursleft1))"

text \<open>The day's slot and the next day's slot both exist.\<close>

definition day_ok :: "ticket \<Rightarrow> int \<Rightarrow> bool" where
  "day_ok t day = (0 \<le> day \<and> day + 1 < int (length (remaining t)))"

text \<open>The remaining effort of a ticket for a day (only used where the slot exists).\<close>

definition rem_at :: "ticket \<Rightarrow> int \<Rightarrow> int" where
  "rem_at t day = remaining t ! nat day"

text \<open>Hours a call spends: \<^verbatim>\<open>min(remain, hours_offered, hours_available)\<close>, when both
  the remaining effort and the capacity are positive, else nothing.\<close>

definition spend :: "int \<Rightarrow> int \<Rightarrow> int \<Rightarrow> int" where
  "spend workremain hoursleft hours =
     (if workremain > 0 \<and> hoursleft > 0 then min workremain (min hours hoursleft) else 0)"

section \<open>The store of ticket objects\<close>

text \<open>
  Tickets are handled through pointers (\<^verbatim>\<open>*ticket\<close>), and a policy that sorts works on a
  copy of the pointer slice while it mutates the objects the population points to. The
  store is the list of all ticket objects allocated so far; a pointer is an index into
  it; allocation appends. Go has no dangling pointers: dereferencing an index outside
  the store is the panic \<open>NilPointer\<close>, which no run reaches.
\<close>

definition pbind :: "panic + 'a \<Rightarrow> ('a \<Rightarrow> panic + 'b) \<Rightarrow> panic + 'b" where
  "pbind m f = (case m of Inl e \<Rightarrow> Inl e | Inr x \<Rightarrow> f x)"

definition deref :: "ticket list \<Rightarrow> nat \<Rightarrow> panic + ticket" where
  "deref h p = (if p < length h then Inr (h ! p) else Inl NilPointer)"

text \<open>\<^verbatim>\<open>t.burndownhours(day, hoursleft, hours)\<close> through the pointer \<open>p\<close>.\<close>

definition call_burndownhours ::
  "ticket list \<Rightarrow> nat \<Rightarrow> int \<Rightarrow> int \<Rightarrow> int \<Rightarrow> panic + ticket list \<times> int" where
  "call_burndownhours h p day hoursleft hours =
     pbind (deref h p) (\<lambda>t.
     pbind (burndownhours t day hoursleft hours) (\<lambda>(t', hoursleft').
     Inr (h[p := t'], hoursleft')))"

text \<open>\<^verbatim>\<open>func NewTicket(startday, effort, totaldays int) *ticket\<close>\<close>

definition NewTicket :: "ticket list \<Rightarrow> int \<Rightarrow> int \<Rightarrow> int \<Rightarrow> panic + ticket list \<times> nat" where
  "NewTicket h sd eff totaldays =
     (if \<not> make_ok totaldays then Inl MakeSliceRange
      else pbind (slice_set (replicate (nat totaldays) 0) sd eff) (\<lambda>r.
           Inr (h @ [\<lparr>startday = sd, leadtime = 0, endday = 0, effort = eff, remaining = r\<rparr>],
                length h)))"

text \<open>\<^verbatim>\<open>func (t *ticket) Clone() *ticket\<close>: start day, effort and a copy of the trajectory;
  \<^verbatim>\<open>leadtime\<close> and \<^verbatim>\<open>endday\<close> keep Go's zero value.\<close>

definition Clone :: "ticket list \<Rightarrow> nat \<Rightarrow> panic + ticket list \<times> nat" where
  "Clone h p =
     pbind (deref h p) (\<lambda>t.
     Inr (h @ [\<lparr>startday = startday t, leadtime = 0, endday = 0, effort = effort t,
                remaining = [] @ remaining t\<rparr>],
          length h))"

text \<open>
  \<^verbatim>\<open>createTicketsForDay\<close>: the random efforts come from the arrival generator, which is
  outside the model; the function takes the efforts drawn for the day, one per ticket
  (\<^verbatim>\<open>count\<close> is their number). The result is the slice of new pointers and the sum of
  the efforts.
\<close>

fun createTickets_loop ::
  "ticket list \<Rightarrow> int \<Rightarrow> int \<Rightarrow> int list \<Rightarrow> nat list \<Rightarrow> int \<Rightarrow> panic + ticket list \<times> nat list \<times> int" where
  "createTickets_loop h d days [] tks sumEffort = Inr (h, tks, sumEffort)"
| "createTickets_loop h d days (eff # effs) tks sumEffort =
     pbind (NewTicket h d eff days) (\<lambda>(h', tk).
     createTickets_loop h' d days effs (tks @ [tk]) (wrap64 (sumEffort + eff)))"

definition createTicketsForDay ::
  "ticket list \<Rightarrow> int \<Rightarrow> int \<Rightarrow> int list \<Rightarrow> panic + ticket list \<times> nat list \<times> int" where
  "createTicketsForDay h d days efforts =
     (if \<not> make_ok (int (length efforts)) then Inl MakeSliceRange
      else createTickets_loop h d days efforts [] 0)"

section \<open>Simulations and policies\<close>

text \<open>The field \<^verbatim>\<open>burndownaday func(*simulation, int)\<close> holds one of five functions.\<close>

datatype burndownfn =
  BurndownMaxWip | BurndownOldestFirst | BurndownSjf | BurndownOsjf | BurndownAwsjf

record simulation =
  name :: string
  burndownaday :: burndownfn
  tickets :: "nat list"

definition NewSimulation :: "string \<Rightarrow> burndownfn \<Rightarrow> int \<Rightarrow> panic + simulation" where
  "NewSimulation nm f sz =
     (if \<not> make_ok sz then Inl MakeSliceRange
      else Inr \<lparr>name = nm, burndownaday = f, tickets = []\<rparr>)"

text \<open>\<^verbatim>\<open>func (sim simulation) addTickets(ts []*ticket) simulation\<close>\<close>

fun addTickets_loop :: "ticket list \<Rightarrow> nat list \<Rightarrow> nat list \<Rightarrow> panic + ticket list \<times> nat list" where
  "addTickets_loop h sts [] = Inr (h, sts)"
| "addTickets_loop h sts (t # ts) =
     pbind (Clone h t) (\<lambda>(h', tcp). addTickets_loop h' (sts @ [tcp]) ts)"

definition addTickets :: "ticket list \<Rightarrow> simulation \<Rightarrow> nat list \<Rightarrow> panic + ticket list \<times> simulation" where
  "addTickets h sim ts =
     pbind (addTickets_loop h (tickets sim) ts) (\<lambda>(h', sts).
     Inr (h', sim\<lparr>tickets := sts\<rparr>))"

text \<open>\<^verbatim>\<open>func (sim *simulation) copyTickets() []*ticket\<close>: a new slice with the same pointers.\<close>

definition copyTickets :: "simulation \<Rightarrow> nat list" where
  "copyTickets sim = map (\<lambda>i. tickets sim ! i) [0..<length (tickets sim)]"

definition workhoursday :: int where
  "workhoursday = 8"

text \<open>
  \<^verbatim>\<open>for _, t := range ts { hoursleft = t.burndownhours(day, hoursleft, E) }\<close>, where the
  third argument \<open>E\<close> is either the constant \<^verbatim>\<open>hourswork\<close> or the current \<^verbatim>\<open>hoursleft\<close>:
  \<open>offer\<close> gives it from the current \<^verbatim>\<open>hoursleft\<close>.
\<close>

fun burn_range ::
  "ticket list \<Rightarrow> nat list \<Rightarrow> int \<Rightarrow> int \<Rightarrow> (int \<Rightarrow> int) \<Rightarrow> panic + ticket list \<times> int" where
  "burn_range h [] day hoursleft offer = Inr (h, hoursleft)"
| "burn_range h (t # ts) day hoursleft offer =
     pbind (call_burndownhours h t day hoursleft (offer hoursleft)) (\<lambda>(h', hoursleft').
     burn_range h' ts day hoursleft' offer)"

text \<open>
  The policies. Each returns the store after the day and, beside it, the last value of
  its local variable \<^verbatim>\<open>hoursleft\<close> (the Go functions return nothing).
\<close>

definition burndownMaxWip :: "ticket list \<Rightarrow> simulation \<Rightarrow> int \<Rightarrow> panic + ticket list \<times> int" where
  "burndownMaxWip h sim day =
     (let hourswork = 2; hoursleft = workhoursday in
      pbind (burn_range h (tickets sim) day hoursleft (\<lambda>_. hourswork)) (\<lambda>(h1, hoursleft1).
      if hoursleft1 > 0
      then burn_range h1 (tickets sim) day hoursleft1 (\<lambda>hl. hl)
      else Inr (h1, hoursleft1)))"

definition burndownOldestFirst :: "ticket list \<Rightarrow> simulation \<Rightarrow> int \<Rightarrow> panic + ticket list \<times> int" where
  "burndownOldestFirst h sim day =
     (let hoursleft = workhoursday in
      burn_range h (tickets sim) day hoursleft (\<lambda>hl. hl))"

subsection \<open>Sorting the copy\<close>

text \<open>
  \<^verbatim>\<open>sort.Slice\<close> belongs to Go's standard library, not to the program. It is modelled by
  the library's \<^verbatim>\<open>insertionSortLessFunc\<close>, which is all that \<^verbatim>\<open>sort.Slice\<close> runs on a
  slice of at most 12 elements (at most 6 in releases before Go 1.19, where a longer
  slice first gets a pass with gap 6):
  \<^verbatim>\<open>for i := a + 1; i < b; i++ { for j := i; j > a && less(j, j-1); j-- { swap(j, j-1) } }\<close>.
  Of the sort, the general theorems on the sorting policies use only that it permutes
  the slice (lemma \<open>sort_Slice_mset\<close>), which holds of every sorting algorithm; only the
  evaluations on two tickets depend on the order it produces.
  The comparison closure reads the slice being sorted, so it takes the slice.
\<close>

definition swap :: "'a list \<Rightarrow> nat \<Rightarrow> nat \<Rightarrow> 'a list" where
  "swap xs i j = xs[i := xs ! j, j := xs ! i]"

fun insertion_inner ::
  "('a list \<Rightarrow> nat \<Rightarrow> nat \<Rightarrow> panic + bool) \<Rightarrow> 'a list \<Rightarrow> nat \<Rightarrow> panic + 'a list" where
  "insertion_inner lss xs 0 = Inr xs"
| "insertion_inner lss xs (Suc j) =
     pbind (lss xs (Suc j) j) (\<lambda>b.
     if b then insertion_inner lss (swap xs (Suc j) j) j else Inr xs)"

function insertion_outer ::
  "('a list \<Rightarrow> nat \<Rightarrow> nat \<Rightarrow> panic + bool) \<Rightarrow> 'a list \<Rightarrow> nat \<Rightarrow> nat \<Rightarrow> panic + 'a list" where
  "insertion_outer lss xs i b =
     (if i < b
      then pbind (insertion_inner lss xs i) (\<lambda>xs'. insertion_outer lss xs' (i + 1) b)
      else Inr xs)"
  by pat_completeness auto
termination
  by (relation "measure (\<lambda>(lss, xs, i, b). b - i)") auto

definition sort_Slice ::
  "'a list \<Rightarrow> ('a list \<Rightarrow> nat \<Rightarrow> nat \<Rightarrow> panic + bool) \<Rightarrow> panic + 'a list" where
  "sort_Slice xs lss = insertion_outer lss xs 1 (length xs)"

text \<open>Go's integer division truncates toward zero and panics on a zero divisor.\<close>

definition go_quo :: "int \<Rightarrow> int \<Rightarrow> panic + int" where
  "go_quo a b =
     (if b = 0 then Inl DivideByZero else Inr (sgn a * sgn b * (\<bar>a\<bar> div \<bar>b\<bar>)))"

text \<open>The three comparison closures, in the order the policies are declared.\<close>

definition less_Sjf :: "ticket list \<Rightarrow> int \<Rightarrow> nat list \<Rightarrow> nat \<Rightarrow> nat \<Rightarrow> panic + bool" where
  "less_Sjf h day tscp i j =
     pbind (slice_get tscp (int i)) (\<lambda>p_i.
     pbind (deref h p_i) (\<lambda>ti.
     pbind (slice_get tscp (int j)) (\<lambda>p_j.
     pbind (deref h p_j) (\<lambda>tj.
     pbind (slice_get (remaining ti) day) (\<lambda>ri.
     pbind (slice_get (remaining tj) day) (\<lambda>rj.
     Inr (ri < rj)))))))"

definition less_Osjf :: "ticket list \<Rightarrow> int \<Rightarrow> nat list \<Rightarrow> nat \<Rightarrow> nat \<Rightarrow> panic + bool" where
  "less_Osjf h day tscp i j =
     pbind (slice_get tscp (int i)) (\<lambda>p_i.
     pbind (deref h p_i) (\<lambda>ti.
     pbind (slice_get tscp (int j)) (\<lambda>p_j.
     pbind (deref h p_j) (\<lambda>tj.
     if startday ti < startday tj then Inr True
     else pbind (slice_get (remaining ti) day) (\<lambda>ri.
          pbind (slice_get (remaining tj) day) (\<lambda>rj.
          Inr (ri < rj)))))))"

definition less_Awsjf :: "ticket list \<Rightarrow> int \<Rightarrow> nat list \<Rightarrow> nat \<Rightarrow> nat \<Rightarrow> panic + bool" where
  "less_Awsjf h day tscp i j =
     pbind (slice_get tscp (int i)) (\<lambda>p_i.
     pbind (deref h p_i) (\<lambda>ti.
     pbind (slice_get tscp (int j)) (\<lambda>p_j.
     pbind (deref h p_j) (\<lambda>tj.
     let wi = day + 1 - startday ti;
         wj = day + 1 - startday tj
     in pbind (slice_get (remaining ti) day) (\<lambda>ri.
        pbind (go_quo ri wi) (\<lambda>qi.
        pbind (slice_get (remaining tj) day) (\<lambda>rj.
        pbind (go_quo rj wj) (\<lambda>qj.
        Inr (qi < qj)))))))))"

definition burndownSjf :: "ticket list \<Rightarrow> simulation \<Rightarrow> int \<Rightarrow> panic + ticket list \<times> int" where
  "burndownSjf h sim day =
     (let tscp = copyTickets sim in
      pbind (sort_Slice tscp (less_Sjf h day)) (\<lambda>tscp'.
      let hoursleft = workhoursday in
      burn_range h tscp' day hoursleft (\<lambda>hl. hl)))"

definition burndownOsjf :: "ticket list \<Rightarrow> simulation \<Rightarrow> int \<Rightarrow> panic + ticket list \<times> int" where
  "burndownOsjf h sim day =
     (let tscp = copyTickets sim in
      pbind (sort_Slice tscp (less_Osjf h day)) (\<lambda>tscp'.
      let hoursleft = workhoursday in
      burn_range h tscp' day hoursleft (\<lambda>hl. hl)))"

definition burndownAwsjf :: "ticket list \<Rightarrow> simulation \<Rightarrow> int \<Rightarrow> panic + ticket list \<times> int" where
  "burndownAwsjf h sim day =
     (let tscp = copyTickets sim in
      pbind (sort_Slice tscp (less_Awsjf h day)) (\<lambda>tscp'.
      let hoursleft = workhoursday in
      burn_range h tscp' day hoursleft (\<lambda>hl. hl)))"

text \<open>Calling the function stored in \<^verbatim>\<open>sim.burndownaday\<close>.\<close>

fun call_burndownaday ::
  "burndownfn \<Rightarrow> ticket list \<Rightarrow> simulation \<Rightarrow> int \<Rightarrow> panic + ticket list \<times> int" where
  "call_burndownaday BurndownMaxWip = burndownMaxWip"
| "call_burndownaday BurndownOldestFirst = burndownOldestFirst"
| "call_burndownaday BurndownSjf = burndownSjf"
| "call_burndownaday BurndownOsjf = burndownOsjf"
| "call_burndownaday BurndownAwsjf = burndownAwsjf"

section \<open>The set of simulations and the driver\<close>

text \<open>\<^verbatim>\<open>func NewSimulationset(days int) simulationset\<close>\<close>

definition NewSimulationset :: "int \<Rightarrow> panic + simulation list" where
  "NewSimulationset days =
     pbind (go_quo (wrap64 (days * 3)) 2) (\<lambda>sz.
     pbind (NewSimulation ''Equal working'' BurndownMaxWip sz) (\<lambda>s0.
     pbind (NewSimulation ''Oldest first'' BurndownOldestFirst sz) (\<lambda>s1.
     pbind (NewSimulation ''Shortest first'' BurndownSjf sz) (\<lambda>s2.
     pbind (NewSimulation ''Oldest, shortest first'' BurndownOsjf sz) (\<lambda>s3.
     pbind (NewSimulation ''Age weighted, shortest first'' BurndownAwsjf sz) (\<lambda>s4.
     Inr [s0, s1, s2, s3, s4]))))))"

text \<open>\<^verbatim>\<open>func (simset simulationset) addTickets(ts []*ticket) simulationset\<close>\<close>

fun simulationset_addTickets ::
  "ticket list \<Rightarrow> simulation list \<Rightarrow> nat list \<Rightarrow> panic + ticket list \<times> simulation list" where
  "simulationset_addTickets h [] ts = Inr (h, [])"
| "simulationset_addTickets h (s # simset) ts =
     pbind (addTickets h s ts) (\<lambda>(h', s').
     pbind (simulationset_addTickets h' simset ts) (\<lambda>(h'', simset').
     Inr (h'', s' # simset')))"

text \<open>\<^verbatim>\<open>func (simset simulationset) burndown(day int)\<close>\<close>

fun simulationset_burndown ::
  "ticket list \<Rightarrow> simulation list \<Rightarrow> int \<Rightarrow> panic + ticket list" where
  "simulationset_burndown h [] day = Inr h"
| "simulationset_burndown h (s # simset) day =
     pbind (call_burndownaday (burndownaday s) h s day) (\<lambda>(h', hoursleft).
     simulationset_burndown h' simset day)"

text \<open>
  The loop of \<^verbatim>\<open>main\<close>. \<open>arr d\<close> is what the arrival generator draws on day \<open>d\<close>: the
  efforts of the day's new tickets (their number is \<^verbatim>\<open>count\<close>). The state is the store,
  the set of simulations and the two running sums. Inside the loop \<open>0 \<le> d < days\<close>, so
  that \<^verbatim>\<open>d++\<close> and \<^verbatim>\<open>days-1\<close> stay in the range of \<^verbatim>\<open>int\<close>.
\<close>

function main_loop ::
  "(int \<Rightarrow> int list) \<Rightarrow> int \<Rightarrow> int \<Rightarrow> ticket list \<Rightarrow> simulation list \<Rightarrow> int \<Rightarrow> int \<Rightarrow>
     panic + ticket list \<times> simulation list \<times> int \<times> int" where
  "main_loop arr days d h simset sumCount sumEffort =
     (if d < days then
        let count = int (length (arr d)) in
        pbind (createTicketsForDay h d days (arr d)) (\<lambda>(h1, tks, eff).
        pbind (simulationset_addTickets h1 simset tks) (\<lambda>(h2, simset2).
        pbind (if d < days - 1 then simulationset_burndown h2 simset2 d else Inr h2) (\<lambda>h3.
        main_loop arr days (d + 1) h3 simset2
          (wrap64 (sumCount + count)) (wrap64 (sumEffort + eff)))))
      else Inr (h, simset, sumCount, sumEffort))"
  by pat_completeness auto
termination
  by (relation "measure (\<lambda>(arr, days, d, h, simset, sumCount, sumEffort). nat (days - d))") auto

declare main_loop.simps [simp del]

definition main ::
  "int \<Rightarrow> (int \<Rightarrow> int list) \<Rightarrow> panic + ticket list \<times> simulation list \<times> int \<times> int" where
  "main days arr =
     pbind (NewSimulationset days) (\<lambda>simset.
     main_loop arr days 0 [] simset 0 0)"

section \<open>The policies on the memory\<close>

text \<open>
  In the definitions above a slice of pointers is a list, a value, and a policy returns
  the store of the tickets: what a policy does to the slice \<^verbatim>\<open>sim.tickets\<close> itself cannot
  be told there. This section gives the policies once more, on the memory: beside the
  ticket objects it holds the arrays behind the slices of pointers, and a slice is the
  address of its array and its length (the policies do not read the capacity, which is
  the length of the array). A pointer in an array is \<open>None\<close> for \<^verbatim>\<open>nil\<close>. The arithmetic is
  that of \<^verbatim>\<open>int\<close>. The definitions above are the abstraction of these (lemma
  \<open>policy_mem_refines\<close>).
\<close>

record ptrslice =
  sarray :: nat
  slen :: nat

record memory =
  objs :: "ticket list"
  arrays :: "nat option list list"

record simulation_mem =
  mem_name :: string
  mem_burndownaday :: burndownfn
  mem_tickets :: ptrslice

text \<open>\<^verbatim>\<open>s[i]\<close>, \<^verbatim>\<open>s[i] = v\<close> and \<^verbatim>\<open>make([]*ticket, n)\<close>.\<close>

definition index_mem :: "memory \<Rightarrow> ptrslice \<Rightarrow> int \<Rightarrow> panic + nat option" where
  "index_mem m s i =
     (if 0 \<le> i \<and> i < int (slen s) then Inr (arrays m ! sarray s ! nat i)
      else Inl IndexOutOfRange)"

definition store_mem :: "memory \<Rightarrow> ptrslice \<Rightarrow> int \<Rightarrow> nat option \<Rightarrow> panic + memory" where
  "store_mem m s i v =
     (if 0 \<le> i \<and> i < int (slen s)
      then Inr (m\<lparr>arrays := (arrays m)[sarray s := (arrays m ! sarray s)[nat i := v]]\<rparr>)
      else Inl IndexOutOfRange)"

definition make_ptrs :: "memory \<Rightarrow> int \<Rightarrow> panic + memory \<times> ptrslice" where
  "make_ptrs m n =
     (if \<not> make_ok n then Inl MakeSliceRange
      else Inr (m\<lparr>arrays := arrays m @ [replicate (nat n) None]\<rparr>,
                \<lparr>sarray = length (arrays m), slen = nat n\<rparr>))"

text \<open>\<^verbatim>\<open>func (sim *simulation) copyTickets() []*ticket\<close>, with its loop
  \<^verbatim>\<open>for i, t := range (*sim).tickets { tscp[i] = t }\<close> over the indices.\<close>

fun copy_range :: "memory \<Rightarrow> ptrslice \<Rightarrow> ptrslice \<Rightarrow> nat list \<Rightarrow> panic + memory" where
  "copy_range m ts tscp [] = Inr m"
| "copy_range m ts tscp (i # ixs) =
     pbind (index_mem m ts (int i)) (\<lambda>t.
     pbind (store_mem m tscp (int i) t) (\<lambda>m'.
     copy_range m' ts tscp ixs))"

definition copyTickets_mem :: "memory \<Rightarrow> simulation_mem \<Rightarrow> panic + memory \<times> ptrslice" where
  "copyTickets_mem m sim =
     pbind (make_ptrs m (int (slen (mem_tickets sim)))) (\<lambda>(m1, tscp).
     pbind (copy_range m1 (mem_tickets sim) tscp [0..<slen (mem_tickets sim)]) (\<lambda>m2.
     Inr (m2, tscp)))"

text \<open>\<^verbatim>\<open>t.burndownhours(day, hoursleft, hours)\<close> through a pointer, and the range loop
  over a slice in the memory.\<close>

definition call_burndownhours_mem ::
  "memory \<Rightarrow> nat option \<Rightarrow> int \<Rightarrow> int \<Rightarrow> int \<Rightarrow> panic + memory \<times> int" where
  "call_burndownhours_mem m p day hoursleft hours =
     (case p of
        None \<Rightarrow> Inl NilPointer
      | Some q \<Rightarrow>
          pbind (deref (objs m) q) (\<lambda>t.
          pbind (burndownhours_int64 t day hoursleft hours) (\<lambda>(t', hoursleft').
          Inr (m\<lparr>objs := (objs m)[q := t']\<rparr>, hoursleft'))))"

fun burn_range_mem ::
  "memory \<Rightarrow> ptrslice \<Rightarrow> nat list \<Rightarrow> int \<Rightarrow> int \<Rightarrow> (int \<Rightarrow> int) \<Rightarrow> panic + memory \<times> int" where
  "burn_range_mem m ts [] day hoursleft offer = Inr (m, hoursleft)"
| "burn_range_mem m ts (i # ixs) day hoursleft offer =
     pbind (index_mem m ts (int i)) (\<lambda>t.
     pbind (call_burndownhours_mem m t day hoursleft (offer hoursleft)) (\<lambda>(m', hoursleft').
     burn_range_mem m' ts ixs day hoursleft' offer))"

definition burndownMaxWip_mem :: "memory \<Rightarrow> simulation_mem \<Rightarrow> int \<Rightarrow> panic + memory \<times> int" where
  "burndownMaxWip_mem m sim day =
     (let hourswork = 2; hoursleft = workhoursday; ts = mem_tickets sim in
      pbind (burn_range_mem m ts [0..<slen ts] day hoursleft (\<lambda>_. hourswork)) (\<lambda>(m1, hoursleft1).
      if hoursleft1 > 0
      then burn_range_mem m1 ts [0..<slen ts] day hoursleft1 (\<lambda>hl. hl)
      else Inr (m1, hoursleft1)))"

definition burndownOldestFirst_mem ::
  "memory \<Rightarrow> simulation_mem \<Rightarrow> int \<Rightarrow> panic + memory \<times> int" where
  "burndownOldestFirst_mem m sim day =
     (let hoursleft = workhoursday; ts = mem_tickets sim in
      burn_range_mem m ts [0..<slen ts] day hoursleft (\<lambda>hl. hl))"

text \<open>\<^verbatim>\<open>sort.Slice\<close> sorts the slice it is given in place: the insertion sort above, with
  \<^verbatim>\<open>swap\<close> on the array of the slice and a comparison that reads the memory.\<close>

definition swap_mem :: "memory \<Rightarrow> ptrslice \<Rightarrow> nat \<Rightarrow> nat \<Rightarrow> memory" where
  "swap_mem m s i j = m\<lparr>arrays := (arrays m)[sarray s := swap (arrays m ! sarray s) i j]\<rparr>"

fun insertion_inner_mem ::
  "(memory \<Rightarrow> nat \<Rightarrow> nat \<Rightarrow> panic + bool) \<Rightarrow> memory \<Rightarrow> ptrslice \<Rightarrow> nat \<Rightarrow> panic + memory" where
  "insertion_inner_mem lss m s 0 = Inr m"
| "insertion_inner_mem lss m s (Suc j) =
     pbind (lss m (Suc j) j) (\<lambda>b.
     if b then insertion_inner_mem lss (swap_mem m s (Suc j) j) s j else Inr m)"

function insertion_outer_mem ::
  "(memory \<Rightarrow> nat \<Rightarrow> nat \<Rightarrow> panic + bool) \<Rightarrow> memory \<Rightarrow> ptrslice \<Rightarrow> nat \<Rightarrow> nat
     \<Rightarrow> panic + memory" where
  "insertion_outer_mem lss m s i b =
     (if i < b
      then pbind (insertion_inner_mem lss m s i) (\<lambda>m'. insertion_outer_mem lss m' s (i + 1) b)
      else Inr m)"
  by pat_completeness auto
termination
  by (relation "measure (\<lambda>(lss, m, s, i, b). b - i)") auto

definition sort_Slice_mem ::
  "memory \<Rightarrow> ptrslice \<Rightarrow> (memory \<Rightarrow> nat \<Rightarrow> nat \<Rightarrow> panic + bool) \<Rightarrow> panic + memory" where
  "sort_Slice_mem m s lss = insertion_outer_mem lss m s 1 (slen s)"

text \<open>Dereferencing a pointer of an array; the quotient in the arithmetic of \<^verbatim>\<open>int\<close>
  (the least \<^verbatim>\<open>int\<close> divided by \<open>- 1\<close> is itself); the three comparison closures, which
  read \<^verbatim>\<open>tscp[i]\<close> and \<^verbatim>\<open>tscp[j]\<close> and then follow the two pointers where the code reads
  a field.\<close>

definition deref_mem :: "memory \<Rightarrow> nat option \<Rightarrow> panic + ticket" where
  "deref_mem m p = (case p of None \<Rightarrow> Inl NilPointer | Some q \<Rightarrow> deref (objs m) q)"

definition go_quo_int64 :: "int \<Rightarrow> int \<Rightarrow> panic + int" where
  "go_quo_int64 a b =
     (if b = 0 then Inl DivideByZero else Inr (wrap64 (sgn a * sgn b * (\<bar>a\<bar> div \<bar>b\<bar>))))"

definition less_Sjf_mem :: "int \<Rightarrow> ptrslice \<Rightarrow> memory \<Rightarrow> nat \<Rightarrow> nat \<Rightarrow> panic + bool" where
  "less_Sjf_mem day tscp m i j =
     pbind (index_mem m tscp (int i)) (\<lambda>p_i.
     pbind (index_mem m tscp (int j)) (\<lambda>p_j.
     pbind (deref_mem m p_i) (\<lambda>ti.
     pbind (slice_get (remaining ti) day) (\<lambda>ri.
     pbind (deref_mem m p_j) (\<lambda>tj.
     pbind (slice_get (remaining tj) day) (\<lambda>rj.
     Inr (ri < rj)))))))"

definition less_Osjf_mem :: "int \<Rightarrow> ptrslice \<Rightarrow> memory \<Rightarrow> nat \<Rightarrow> nat \<Rightarrow> panic + bool" where
  "less_Osjf_mem day tscp m i j =
     pbind (index_mem m tscp (int i)) (\<lambda>p_i.
     pbind (index_mem m tscp (int j)) (\<lambda>p_j.
     pbind (deref_mem m p_i) (\<lambda>ti.
     pbind (deref_mem m p_j) (\<lambda>tj.
     if startday ti < startday tj then Inr True
     else pbind (slice_get (remaining ti) day) (\<lambda>ri.
          pbind (slice_get (remaining tj) day) (\<lambda>rj.
          Inr (ri < rj)))))))"

definition less_Awsjf_mem :: "int \<Rightarrow> ptrslice \<Rightarrow> memory \<Rightarrow> nat \<Rightarrow> nat \<Rightarrow> panic + bool" where
  "less_Awsjf_mem day tscp m i j =
     pbind (index_mem m tscp (int i)) (\<lambda>p_i.
     pbind (index_mem m tscp (int j)) (\<lambda>p_j.
     pbind (deref_mem m p_i) (\<lambda>ti.
     pbind (deref_mem m p_j) (\<lambda>tj.
     let wi = wrap64 (wrap64 (day + 1) - startday ti);
         wj = wrap64 (wrap64 (day + 1) - startday tj)
     in pbind (slice_get (remaining ti) day) (\<lambda>ri.
        pbind (go_quo_int64 ri wi) (\<lambda>qi.
        pbind (slice_get (remaining tj) day) (\<lambda>rj.
        pbind (go_quo_int64 rj wj) (\<lambda>qj.
        Inr (qi < qj)))))))))"

definition burndownSjf_mem :: "memory \<Rightarrow> simulation_mem \<Rightarrow> int \<Rightarrow> panic + memory \<times> int" where
  "burndownSjf_mem m sim day =
     pbind (copyTickets_mem m sim) (\<lambda>(m1, tscp).
     pbind (sort_Slice_mem m1 tscp (less_Sjf_mem day tscp)) (\<lambda>m2.
     let hoursleft = workhoursday in
     burn_range_mem m2 tscp [0..<slen tscp] day hoursleft (\<lambda>hl. hl)))"

definition burndownOsjf_mem :: "memory \<Rightarrow> simulation_mem \<Rightarrow> int \<Rightarrow> panic + memory \<times> int" where
  "burndownOsjf_mem m sim day =
     pbind (copyTickets_mem m sim) (\<lambda>(m1, tscp).
     pbind (sort_Slice_mem m1 tscp (less_Osjf_mem day tscp)) (\<lambda>m2.
     let hoursleft = workhoursday in
     burn_range_mem m2 tscp [0..<slen tscp] day hoursleft (\<lambda>hl. hl)))"

definition burndownAwsjf_mem :: "memory \<Rightarrow> simulation_mem \<Rightarrow> int \<Rightarrow> panic + memory \<times> int" where
  "burndownAwsjf_mem m sim day =
     pbind (copyTickets_mem m sim) (\<lambda>(m1, tscp).
     pbind (sort_Slice_mem m1 tscp (less_Awsjf_mem day tscp)) (\<lambda>m2.
     let hoursleft = workhoursday in
     burn_range_mem m2 tscp [0..<slen tscp] day hoursleft (\<lambda>hl. hl)))"

fun call_burndownaday_mem ::
  "burndownfn \<Rightarrow> memory \<Rightarrow> simulation_mem \<Rightarrow> int \<Rightarrow> panic + memory \<times> int" where
  "call_burndownaday_mem BurndownMaxWip = burndownMaxWip_mem"
| "call_burndownaday_mem BurndownOldestFirst = burndownOldestFirst_mem"
| "call_burndownaday_mem BurndownSjf = burndownSjf_mem"
| "call_burndownaday_mem BurndownOsjf = burndownOsjf_mem"
| "call_burndownaday_mem BurndownAwsjf = burndownAwsjf_mem"

section \<open>Statistics\<close>

text \<open>
  \<^verbatim>\<open>float64\<close>: a finite value is the real number it denotes, beside the two infinities
  and NaN. The rounding of finite results, overflow to an infinity and the sign of zero
  are not modelled; the operations follow IEEE 754 on the special values, of which the
  statements below use \<open>0 / 0 = NaN\<close> and that NaN propagates. The only zero divisor in
  \<^verbatim>\<open>statsLeadTime\<close> is \<^verbatim>\<open>float64(len(sim.tickets))\<close>, a positive zero.
\<close>

datatype float64 = Finite real | PosInf | NegInf | NaN

fun fneg :: "float64 \<Rightarrow> float64" where
  "fneg (Finite x) = Finite (- x)"
| "fneg PosInf = NegInf"
| "fneg NegInf = PosInf"
| "fneg NaN = NaN"

fun fadd :: "float64 \<Rightarrow> float64 \<Rightarrow> float64" where
  "fadd NaN b = NaN"
| "fadd a NaN = NaN"
| "fadd (Finite x) (Finite y) = Finite (x + y)"
| "fadd PosInf NegInf = NaN"
| "fadd NegInf PosInf = NaN"
| "fadd (Finite x) b = b"
| "fadd a b = a"

definition fsub :: "float64 \<Rightarrow> float64 \<Rightarrow> float64" where
  "fsub a b = fadd a (fneg b)"

fun fmul :: "float64 \<Rightarrow> float64 \<Rightarrow> float64" where
  "fmul NaN b = NaN"
| "fmul a NaN = NaN"
| "fmul (Finite x) (Finite y) = Finite (x * y)"
| "fmul (Finite x) b = (if x = 0 then NaN else if 0 < x then b else fneg b)"
| "fmul a (Finite y) = (if y = 0 then NaN else if 0 < y then a else fneg a)"
| "fmul PosInf b = b"
| "fmul NegInf b = fneg b"

fun fdiv :: "float64 \<Rightarrow> float64 \<Rightarrow> float64" where
  "fdiv NaN b = NaN"
| "fdiv a NaN = NaN"
| "fdiv (Finite x) (Finite y) =
     (if y = 0 then (if x = 0 then NaN else if 0 < x then PosInf else NegInf)
      else Finite (x / y))"
| "fdiv (Finite x) b = Finite 0"
| "fdiv a (Finite y) = (if 0 \<le> y then a else fneg a)"
| "fdiv a b = NaN"

fun fsqrt :: "float64 \<Rightarrow> float64" where
  "fsqrt (Finite x) = (if x < 0 then NaN else Finite (sqrt x))"
| "fsqrt PosInf = PosInf"
| "fsqrt a = NaN"

text \<open>\<^verbatim>\<open>func (sim simulation) statsLeadTime() (float64, float64, float64)\<close>\<close>

fun statsLeadTime_loop ::
  "ticket list \<Rightarrow> nat list \<Rightarrow> float64 \<Rightarrow> float64 \<Rightarrow> panic + float64 \<times> float64" where
  "statsLeadTime_loop h [] sm sumSq = Inr (sm, sumSq)"
| "statsLeadTime_loop h (t # ts) sm sumSq =
     pbind (deref h t) (\<lambda>tk.
     let l = Finite (of_int (leadtime tk)) in
     statsLeadTime_loop h ts (fadd sm l) (fadd sumSq (fmul l l)))"

definition statsLeadTime ::
  "ticket list \<Rightarrow> simulation \<Rightarrow> panic + float64 \<times> float64 \<times> float64" where
  "statsLeadTime h sim =
     pbind (statsLeadTime_loop h (tickets sim) (Finite 0) (Finite 0)) (\<lambda>(sm, sumSq).
     let l = Finite (of_nat (length (tickets sim)));
         meanSq = fdiv sumSq l;
         mean = fdiv sm l;
         stdev = fsqrt (fsub meanSq (fmul mean mean))
     in Inr (mean, stdev, fadd mean stdev))"

section \<open>Notions used in the statements\<close>

text \<open>The ticket object after a call on day \<open>day\<close> that spends \<open>s\<close> hours on it.\<close>

definition burnt :: "ticket \<Rightarrow> int \<Rightarrow> int \<Rightarrow> ticket" where
  "burnt t day s =
     (if rem_at t day > 0 then t\<lparr>endday := day, leadtime := day + 1 - startday t\<rparr> else t)
       \<lparr>remaining := (remaining t)[nat (day + 1) := rem_at t day - s]\<rparr>"

text \<open>The hours the successive calls of a range loop spend, from the remaining efforts
  of the tickets in loop order and the capacity at the start.\<close>

fun spends :: "int list \<Rightarrow> int \<Rightarrow> (int \<Rightarrow> int) \<Rightarrow> int list" where
  "spends [] hl offer = []"
| "spends (r # rs) hl offer =
     spend r hl (offer hl) # spends rs (hl - spend r hl (offer hl)) offer"

text \<open>The store after the tickets \<open>ps\<close> received the hours \<open>ss\<close>, in order.\<close>

fun apply_spends :: "ticket list \<Rightarrow> nat list \<Rightarrow> int list \<Rightarrow> int \<Rightarrow> ticket list" where
  "apply_spends h (p # ps) (s # ss) day = apply_spends (h[p := burnt (h ! p) day s]) ps ss day"
| "apply_spends h ps ss day = h"

text \<open>The pointers are distinct and valid, and every ticket has the slots of the day
  and of the next day.\<close>

definition ptrs_ok :: "ticket list \<Rightarrow> nat list \<Rightarrow> int \<Rightarrow> bool" where
  "ptrs_ok h ps day = (distinct ps \<and> (\<forall>p\<in>set ps. p < length h \<and> day_ok (h ! p) day))"

text \<open>The remaining efforts of the tickets \<open>ps\<close> for the day.\<close>

definition rems :: "ticket list \<Rightarrow> nat list \<Rightarrow> int \<Rightarrow> int list" where
  "rems h ps day = map (\<lambda>p. rem_at (h ! p) day) ps"

text \<open>Hours by which the remaining effort of ticket \<open>p\<close> fell over the day, between
  the stores \<open>h\<close> and \<open>h'\<close>; their sum over a population.\<close>

definition spent :: "ticket list \<Rightarrow> ticket list \<Rightarrow> int \<Rightarrow> nat \<Rightarrow> int" where
  "spent h h' day p = rem_at (h ! p) day - rem_at (h' ! p) (day + 1)"

definition hours_spent :: "ticket list \<Rightarrow> ticket list \<Rightarrow> int \<Rightarrow> nat list \<Rightarrow> int" where
  "hours_spent h h' day ps = sum_list (map (spent h h' day) ps)"

text \<open>A population on a day: the pointers are distinct and valid, the tickets have the
  slots of the day and of the next day, and no ticket starts after the day (tickets are
  added on their start day, before the day's burn-down).\<close>

definition pop_ok :: "ticket list \<Rightarrow> simulation \<Rightarrow> int \<Rightarrow> bool" where
  "pop_ok h sim day =
     (ptrs_ok h (tickets sim) day \<and> (\<forall>p\<in>set (tickets sim). startday (h ! p) \<le> day))"

text \<open>What a day does to the store: the population's tickets are burnt by the hours
  spent on them, which are neither negative nor more than the remaining effort; nothing
  else changes.\<close>

definition day_effect :: "ticket list \<Rightarrow> ticket list \<Rightarrow> nat list \<Rightarrow> int \<Rightarrow> bool" where
  "day_effect h h' ps day =
     (length h' = length h
      \<and> (\<forall>q. q \<notin> set ps \<longrightarrow> h' ! q = h ! q)
      \<and> (\<forall>p\<in>set ps. h' ! p = burnt (h ! p) day (spent h h' day p)
            \<and> 0 \<le> spent h h' day p \<and> spent h h' day p \<le> max 0 (rem_at (h ! p) day)))"

text \<open>
  The values the local variable \<^verbatim>\<open>hoursleft\<close> takes in a range loop: the capacity
  before the first call and after every call. \<open>hoursleft_trace\<close> collects them over
  the loops of a policy, in the order the policy runs them.
\<close>

fun burn_range_trace ::
  "ticket list \<Rightarrow> nat list \<Rightarrow> int \<Rightarrow> int \<Rightarrow> (int \<Rightarrow> int) \<Rightarrow> int list" where
  "burn_range_trace h [] day hoursleft offer = [hoursleft]"
| "burn_range_trace h (t # ts) day hoursleft offer =
     hoursleft #
     (case call_burndownhours h t day hoursleft (offer hoursleft) of
        Inl e \<Rightarrow> []
      | Inr (h', hoursleft') \<Rightarrow> burn_range_trace h' ts day hoursleft' offer)"

fun hoursleft_trace :: "burndownfn \<Rightarrow> ticket list \<Rightarrow> simulation \<Rightarrow> int \<Rightarrow> int list" where
  "hoursleft_trace BurndownMaxWip h sim day =
     burn_range_trace h (tickets sim) day workhoursday (\<lambda>_. 2) @
     (case burn_range h (tickets sim) day workhoursday (\<lambda>_. 2) of
        Inl e \<Rightarrow> []
      | Inr (h1, hoursleft1) \<Rightarrow>
          if hoursleft1 > 0
          then burn_range_trace h1 (tickets sim) day hoursleft1 (\<lambda>hl. hl) else [])"
| "hoursleft_trace BurndownOldestFirst h sim day =
     burn_range_trace h (tickets sim) day workhoursday (\<lambda>hl. hl)"
| "hoursleft_trace BurndownSjf h sim day =
     (case sort_Slice (copyTickets sim) (less_Sjf h day) of
        Inl e \<Rightarrow> []
      | Inr tscp' \<Rightarrow> burn_range_trace h tscp' day workhoursday (\<lambda>hl. hl))"
| "hoursleft_trace BurndownOsjf h sim day =
     (case sort_Slice (copyTickets sim) (less_Osjf h day) of
        Inl e \<Rightarrow> []
      | Inr tscp' \<Rightarrow> burn_range_trace h tscp' day workhoursday (\<lambda>hl. hl))"
| "hoursleft_trace BurndownAwsjf h sim day =
     (case sort_Slice (copyTickets sim) (less_Awsjf h day) of
        Inl e \<Rightarrow> []
      | Inr tscp' \<Rightarrow> burn_range_trace h tscp' day workhoursday (\<lambda>hl. hl))"

text \<open>The total remaining work of the open tickets of a population on a day.\<close>

definition open_work :: "ticket list \<Rightarrow> int \<Rightarrow> nat list \<Rightarrow> int" where
  "open_work h day ps = sum_list (map (\<lambda>p. max 0 (rem_at (h ! p) day)) ps)"

text \<open>
  The state of a ticket after \<open>m\<close> days of burn-down (the days before \<open>m\<close>), in a run
  over \<open>days\<close> days: the trajectory has \<open>days\<close> slots and starts at the effort, it does
  not increase from the start day to day \<open>m\<close> and is not negative when the effort is
  not; \<open>leadtime\<close> counts the days on which the ticket was open, which are the first
  \<open>leadtime\<close> days from its start, and \<open>endday\<close> is the last of them.
\<close>

definition tk_inv :: "int \<Rightarrow> int \<Rightarrow> ticket \<Rightarrow> bool" where
  "tk_inv days m t =
     (int (length (remaining t)) = days \<and> 0 \<le> startday t \<and> startday t \<le> m \<and> m < days
      \<and> rem_at t (startday t) = effort t
      \<and> (\<forall>k. startday t \<le> k \<and> k < m \<longrightarrow> rem_at t (k + 1) \<le> rem_at t k)
      \<and> (0 \<le> effort t \<longrightarrow> (\<forall>k. startday t \<le> k \<and> k \<le> m \<longrightarrow> 0 \<le> rem_at t k))
      \<and> 0 \<le> leadtime t \<and> startday t + leadtime t \<le> m
      \<and> (\<forall>k. startday t \<le> k \<and> k < startday t + leadtime t \<longrightarrow> 0 < rem_at t k)
      \<and> (\<forall>k. startday t + leadtime t \<le> k \<and> k < m \<longrightarrow> rem_at t k \<le> 0)
      \<and> endday t = (if 0 < leadtime t then startday t + leadtime t - 1 else 0))"

text \<open>The object \<^verbatim>\<open>NewTicket\<close> allocates, and the object \<^verbatim>\<open>Clone\<close> allocates from a ticket.\<close>

definition new_ticket :: "int \<Rightarrow> int \<Rightarrow> int \<Rightarrow> ticket" where
  "new_ticket d days e =
     \<lparr>startday = d, leadtime = 0, endday = 0, effort = e,
      remaining = (replicate (nat days) 0)[nat d := e]\<rparr>"

definition clone_of :: "ticket \<Rightarrow> ticket" where
  "clone_of t =
     \<lparr>startday = startday t, leadtime = 0, endday = 0, effort = effort t,
      remaining = remaining t\<rparr>"

text \<open>Adding the clones \<open>cl\<close> to every simulation in turn: each simulation receives the
  next \<open>length cl\<close> addresses.\<close>

fun add_all :: "ticket list \<Rightarrow> ticket list \<Rightarrow> simulation list \<Rightarrow> ticket list \<times> simulation list" where
  "add_all h cl [] = (h, [])"
| "add_all h cl (s # ss) =
     (case add_all (h @ cl) cl ss of
        (h', ss') \<Rightarrow> (h', s\<lparr>tickets := tickets s @ [length h..<length h + length cl]\<rparr> # ss'))"

text \<open>The ticket objects of a population, in its order, and the pointers of all
  populations.\<close>

definition objects :: "ticket list \<Rightarrow> simulation \<Rightarrow> ticket list" where
  "objects h s = map (\<lambda>p. h ! p) (tickets s)"

definition all_ptrs :: "simulation list \<Rightarrow> nat list" where
  "all_ptrs ss = concat (map tickets ss)"

text \<open>No ticket belongs to two populations or twice to one, and every ticket of a
  population is in the state of day \<open>m\<close>.\<close>

definition sims_inv :: "int \<Rightarrow> int \<Rightarrow> ticket list \<Rightarrow> simulation list \<Rightarrow> bool" where
  "sims_inv days m h ss =
     (distinct (all_ptrs ss) \<and> (\<forall>p\<in>set (all_ptrs ss). p < length h \<and> tk_inv days m (h ! p)))"

text \<open>Start day and effort of tickets, and those of all arrivals before day \<open>d\<close>, in the
  order of arrival.\<close>

definition keys :: "ticket list \<Rightarrow> (int \<times> int) list" where
  "keys ts = map (\<lambda>t. (startday t, effort t)) ts"

definition arrival_order :: "(int \<Rightarrow> int list) \<Rightarrow> int \<Rightarrow> (int \<times> int) list" where
  "arrival_order arr d = concat (map (\<lambda>k. map (\<lambda>e. (k, e)) (arr k)) [0..d - 1])"

text \<open>The invariant of the loop of \<open>main\<close>, at the head of day \<open>d\<close>: burn-down has run on
  the days before \<open>d\<close>, except the last day of the run, and every population lists its
  tickets by increasing address, which is the order in which they were allocated.\<close>

definition main_inv ::
  "(int \<Rightarrow> int list) \<Rightarrow> int \<Rightarrow> int \<Rightarrow> ticket list \<Rightarrow> simulation list \<Rightarrow> bool" where
  "main_inv arr days d h ss =
     (sims_inv days (min d (days - 1)) h ss
      \<and> (\<forall>s\<in>set ss. keys (objects h s) = arrival_order arr d)
      \<and> (\<forall>s\<in>set ss. sorted_wrt (<) (tickets s)))"

text \<open>
  The memory and the abstraction. \<open>pop_at m s ps\<close>: the slice \<open>s\<close> of the memory holds the
  pointers \<open>ps\<close>, in this order, in an array that \<^verbatim>\<open>make\<close> has allocated. \<open>abs_sim\<close> is the
  simulation with its slice as a value, and \<open>with_array m a ys\<close> the memory with the
  pointers \<open>ys\<close> as array \<open>a\<close>. \<open>int64_ticket\<close>: a ticket of the program on a day, with a
  trajectory that is a slice of Go, a remaining effort that is an \<^verbatim>\<open>int\<close> and a start
  day that is not negative.
\<close>

definition pop_at :: "memory \<Rightarrow> ptrslice \<Rightarrow> nat list \<Rightarrow> bool" where
  "pop_at m s ps =
     (sarray s < length (arrays m) \<and> slen s = length ps
      \<and> take (slen s) (arrays m ! sarray s) = map Some ps
      \<and> make_ok (int (length (arrays m ! sarray s))))"

definition abs_sim :: "simulation_mem \<Rightarrow> nat list \<Rightarrow> simulation" where
  "abs_sim sim ps = \<lparr>name = mem_name sim, burndownaday = mem_burndownaday sim, tickets = ps\<rparr>"

definition with_array :: "memory \<Rightarrow> nat \<Rightarrow> nat list \<Rightarrow> memory" where
  "with_array m a ys = m\<lparr>arrays := (arrays m)[a := map Some ys]\<rparr>"

definition int64_ticket :: "ticket \<Rightarrow> int \<Rightarrow> bool" where
  "int64_ticket t day =
     (int (length (remaining t)) < 2 ^ 63 \<and> int64 (rem_at t day) \<and> 0 \<le> startday t)"

subsection \<open>Concrete tickets and runs\<close>

text \<open>A ticket of day 0 with effort 5 that day 0 left untouched: an earlier ticket took
  the whole capacity.\<close>

definition waiting_ticket :: ticket where
  "waiting_ticket = \<lparr>startday = 0, leadtime = 1, endday = 0, effort = 5, remaining = [5, 5, 0]\<rparr>"

text \<open>
  Ticket A arrives on day 0 with effort 20, ticket B on day 1 with effort 3. After day 0
  of a single-pass policy A has 12 hours left: \<open>two_tickets\<close> is the store of such a
  simulation on day 1, before the burn-down, and \<open>sim_of f\<close> its population.
\<close>

definition arrivals_ab :: "int \<Rightarrow> int list" where
  "arrivals_ab d = (if d = 0 then [20] else if d = 1 then [3] else [])"

definition two_tickets :: "ticket list" where
  "two_tickets =
     [\<lparr>startday = 0, leadtime = 1, endday = 0, effort = 20, remaining = [20, 12, 0]\<rparr>,
      \<lparr>startday = 1, leadtime = 0, endday = 0, effort = 3, remaining = [0, 3, 0]\<rparr>]"

text \<open>The example of the specification: A with effort 5, finished on day 0, and B.\<close>

definition claim_tickets :: "ticket list" where
  "claim_tickets =
     [\<lparr>startday = 0, leadtime = 1, endday = 0, effort = 5, remaining = [5, 0, 0]\<rparr>,
      \<lparr>startday = 1, leadtime = 0, endday = 0, effort = 3, remaining = [0, 3, 0]\<rparr>]"

definition sim_of :: "burndownfn \<Rightarrow> simulation" where
  "sim_of f = \<lparr>name = '''', burndownaday = f, tickets = [0, 1]\<rparr>"

text \<open>The same simulation in the memory: its slice has length 2 in an array of capacity
  3, at address 0.\<close>

definition two_mem :: memory where
  "two_mem = \<lparr>objs = two_tickets, arrays = [[Some 0, Some 1, None]]\<rparr>"

definition sim_mem_of :: "burndownfn \<Rightarrow> simulation_mem" where
  "sim_mem_of f =
     \<lparr>mem_name = '''', mem_burndownaday = f, mem_tickets = \<lparr>sarray = 0, slen = 2\<rparr>\<rparr>"

text \<open>The tickets of simulation \<open>i\<close> at the end of a run.\<close>

definition final_population ::
  "panic + ticket list \<times> simulation list \<times> int \<times> int \<Rightarrow> nat \<Rightarrow> panic + ticket list" where
  "final_population r i =
     pbind r (\<lambda>(h, simset, sumCount, sumEffort). Inr (map (\<lambda>p. h ! p) (tickets (simset ! i))))"

text \<open>A run without arrivals, and the statistics of simulation \<open>i\<close> at the end of a run.\<close>

definition no_arrivals :: "int \<Rightarrow> int list" where
  "no_arrivals d = []"

definition final_stats ::
  "panic + ticket list \<times> simulation list \<times> int \<times> int \<Rightarrow> nat
     \<Rightarrow> panic + float64 \<times> float64 \<times> float64" where
  "final_stats r i =
     pbind r (\<lambda>(h, simset, sumCount, sumEffort). statsLeadTime h (simset ! i))"

text \<open>
  Two runs with one ticket on day 0: effort 20 over three days (still open at the end),
  and effort 10 over four days (finished on day 1); the store and the simulations at the
  end of the second run.
\<close>

definition arrivals_open :: "int \<Rightarrow> int list" where
  "arrivals_open d = (if d = 0 then [20] else [])"

definition arrivals_done :: "int \<Rightarrow> int list" where
  "arrivals_done d = (if d = 0 then [10] else [])"

definition done_ticket :: ticket where
  "done_ticket = \<lparr>startday = 0, leadtime = 2, endday = 1, effort = 10, remaining = [10, 2, 0, 0]\<rparr>"

definition done_heap :: "ticket list" where
  "done_heap =
     [\<lparr>startday = 0, leadtime = 0, endday = 0, effort = 10, remaining = [10, 0, 0, 0]\<rparr>,
      \<lparr>startday = 0, leadtime = 2, endday = 1, effort = 10, remaining = [10, 4, 0, 0]\<rparr>,
      done_ticket, done_ticket, done_ticket, done_ticket]"

definition done_sims :: "simulation list" where
  "done_sims =
     [\<lparr>name = ''Equal working'', burndownaday = BurndownMaxWip, tickets = [1]\<rparr>,
      \<lparr>name = ''Oldest first'', burndownaday = BurndownOldestFirst, tickets = [2]\<rparr>,
      \<lparr>name = ''Shortest first'', burndownaday = BurndownSjf, tickets = [3]\<rparr>,
      \<lparr>name = ''Oldest, shortest first'', burndownaday = BurndownOsjf, tickets = [4]\<rparr>,
      \<lparr>name = ''Age weighted, shortest first'', burndownaday = BurndownAwsjf, tickets = [5]\<rparr>]"

section \<open>Facts about the primitive and the range loop\<close>

lemma burndownhours_burnt:
  assumes "day_ok t day"
  shows "burndownhours t day hoursleft hours =
     Inr (burnt t day (spend (rem_at t day) hoursleft hours),
          hoursleft - spend (rem_at t day) hoursleft hours)"
  using assms
  by (simp add: burndownhours_def day_ok_def rem_at_def spend_def slice_get_def
      slice_set_def Let_def min_def burnt_def)

lemma wrap64_id: "int64 x \<Longrightarrow> wrap64 x = x"
  by (simp add: wrap64_def int64_def)

lemma int64_wrap64: "int64 (wrap64 x)"
proof -
  have "0 \<le> (x + 2 ^ 63) mod 2 ^ 64" "(x + 2 ^ 63) mod 2 ^ 64 < (2 ^ 64 :: int)"
    by simp_all
  then show ?thesis by (simp add: int64_def wrap64_def)
qed

text \<open>The call in the arithmetic of \<^verbatim>\<open>int\<close>, on a day whose slot and next slot exist;
  a slice of Go has fewer than \<open>2\<^sup>6\<^sup>3\<close> elements.\<close>

lemma burndownhours_int64_result:
  assumes "day_ok t day" "int (length (remaining t)) < 2 ^ 63"
  shows "burndownhours_int64 t day hoursleft hours =
     Inr ((if 0 < rem_at t day
           then t\<lparr>endday := day, leadtime := wrap64 (day + 1 - startday t)\<rparr> else t)
            \<lparr>remaining := (remaining t)[nat (day + 1) :=
               (if 0 < rem_at t day \<and> 0 < hoursleft
                then wrap64 (rem_at t day - min (rem_at t day) (min hours hoursleft))
                else rem_at t day)]\<rparr>,
          if 0 < rem_at t day \<and> 0 < hoursleft
          then wrap64 (hoursleft - min (rem_at t day) (min hours hoursleft))
          else hoursleft)"
proof -
  have "int64 (day + 1)" using assms by (simp add: day_ok_def int64_def)
  then have w: "wrap64 (day + 1) = day + 1" by (rule wrap64_id)
  show ?thesis
    using assms(1)
    by (simp add: burndownhours_int64_def w day_ok_def rem_at_def slice_get_def
        slice_set_def Let_def min_def)
qed

text \<open>With an offer that is not negative nothing leaves the range of \<^verbatim>\<open>int\<close>: the hours
  spent lie between 0 and either operand.\<close>

lemma burndownhours_int64_eq:
  assumes "day_ok t day" "int (length (remaining t)) < 2 ^ 63"
    and "int64 (rem_at t day)" "int64 hoursleft" "0 \<le> hours"
    and "int64 (day + 1 - startday t)"
  shows "burndownhours_int64 t day hoursleft hours = burndownhours t day hoursleft hours"
proof -
  let ?h = "min (rem_at t day) (min hours hoursleft)"
  have l: "wrap64 (day + 1 - startday t) = day + 1 - startday t"
    using assms(6) by (rule wrap64_id)
  have s: "wrap64 (rem_at t day - ?h) = rem_at t day - ?h"
    "wrap64 (hoursleft - ?h) = hoursleft - ?h"
    if "0 < rem_at t day" "0 < hoursleft"
    using that assms(3-5) by (auto intro!: wrap64_id simp add: int64_def min_def)
  show ?thesis
    unfolding burndownhours_int64_result [OF assms(1,2)] burndownhours_burnt [OF assms(1)]
    by (auto simp add: burnt_def spend_def l s)
qed

lemma upt_shift: "[a..<a + Suc n] = a # [Suc a..<Suc a + n]"
  by (subst upt_conv_Cons) simp_all

lemma call_burndownhours_eq:
  assumes "p < length h" "day_ok (h ! p) day"
  shows "call_burndownhours h p day hoursleft hours =
     Inr (h[p := burnt (h ! p) day (spend (rem_at (h ! p) day) hoursleft hours)],
          hoursleft - spend (rem_at (h ! p) day) hoursleft hours)"
  using assms by (simp add: call_burndownhours_def deref_def pbind_def burndownhours_burnt)

lemma burnt_simps [simp]:
  "startday (burnt t day s) = startday t"
  "effort (burnt t day s) = effort t"
  "length (remaining (burnt t day s)) = length (remaining t)"
  "day_ok (burnt t day s) d = day_ok t d"
  by (simp_all add: burnt_def day_ok_def)

lemma rem_at_burnt_next:
  "day_ok t day \<Longrightarrow> rem_at (burnt t day s) (day + 1) = rem_at t day - s"
  by (simp add: burnt_def rem_at_def day_ok_def nat_less_iff)

lemma rem_at_burnt_other:
  "0 \<le> k \<Longrightarrow> 0 \<le> day \<Longrightarrow> k \<noteq> day + 1 \<Longrightarrow> rem_at (burnt t day s) k = rem_at t k"
  by (auto simp add: burnt_def rem_at_def nat_eq_iff)

lemma burnt_burnt: "0 \<le> day \<Longrightarrow> burnt (burnt t day s1) day s2 = burnt t day s2"
  by (simp add: burnt_def rem_at_def nat_add_distrib)

lemma ptrs_ok_Cons:
  "ptrs_ok h (p # ps) day \<longleftrightarrow>
     p \<notin> set ps \<and> p < length h \<and> day_ok (h ! p) day \<and> ptrs_ok h ps day"
  by (auto simp add: ptrs_ok_def)

lemma nth_update_notin:
  "p \<notin> set ps \<Longrightarrow> q \<in> set ps \<Longrightarrow> h[p := t] ! q = h ! q"
  by (cases "p = q") auto

lemma ptrs_ok_update:
  assumes "ptrs_ok h ps day" "p \<notin> set ps"
  shows "ptrs_ok (h[p := t]) ps day"
  using assms by (auto simp add: ptrs_ok_def nth_update_notin)

lemma rems_update:
  assumes "p \<notin> set ps"
  shows "rems (h[p := t]) ps day = rems h ps day"
  using assms by (auto simp add: rems_def nth_update_notin)

lemma burn_range_eq:
  assumes "ptrs_ok h ps day"
  shows "burn_range h ps day hl offer =
     Inr (apply_spends h ps (spends (rems h ps day) hl offer) day,
          hl - sum_list (spends (rems h ps day) hl offer))"
  using assms
proof (induction ps arbitrary: h hl)
  case Nil
  then show ?case by (simp add: rems_def)
next
  case (Cons p ps)
  let ?s = "spend (rem_at (h ! p) day) hl (offer hl)"
  let ?h1 = "h[p := burnt (h ! p) day ?s]"
  from Cons.prems have p: "p \<notin> set ps" "p < length h" "day_ok (h ! p) day" "ptrs_ok h ps day"
    by (simp_all add: ptrs_ok_Cons)
  have ok1: "ptrs_ok ?h1 ps day" using p by (simp add: ptrs_ok_update)
  have r1: "rems ?h1 ps day = rems h ps day" using p by (simp add: rems_update)
  have rc: "rems h (p # ps) day = rem_at (h ! p) day # rems h ps day"
    by (simp add: rems_def)
  show ?case
    using Cons.IH [OF ok1, of "hl - ?s"] p
    by (simp add: call_burndownhours_eq pbind_def r1 rc)
qed

lemma length_spends [simp]: "length (spends rs hl offer) = length rs"
  by (induction rs arbitrary: hl) simp_all

lemma length_rems [simp]: "length (rems h ps day) = length ps"
  by (simp add: rems_def)

lemma length_apply_spends [simp]: "length (apply_spends h ps ss day) = length h"
  by (induction h ps ss day rule: apply_spends.induct) simp_all

lemma apply_spends_other:
  "q \<notin> set ps \<Longrightarrow> apply_spends h ps ss day ! q = h ! q"
  by (induction h ps ss day rule: apply_spends.induct) auto

lemma apply_spends_nth:
  assumes "distinct ps" "\<forall>p\<in>set ps. p < length h" "length ss = length ps" "i < length ps"
  shows "apply_spends h ps ss day ! (ps ! i) = burnt (h ! (ps ! i)) day (ss ! i)"
  using assms
proof (induction h ps ss day arbitrary: i rule: apply_spends.induct)
  case (1 h p ps s ss day)
  show ?case
  proof (cases i)
    case 0
    with "1.prems" show ?thesis by (simp add: apply_spends_other)
  next
    case (Suc k)
    with "1.prems" have "ps ! k \<noteq> p" by auto
    with Suc "1.prems" "1.IH" [of k] show ?thesis by simp
  qed
qed simp_all

lemma spend_bounds:
  assumes "0 \<le> hl" "0 \<le> hours"
  shows "0 \<le> spend r hl hours" "spend r hl hours \<le> hl" "spend r hl hours \<le> max 0 r"
    "spend r hl hours \<le> hours"
  using assms by (auto simp add: spend_def min_def)

lemma spend_closed: "0 < r \<Longrightarrow> spend r hl hl = min r hl \<or> hl \<le> 0"
  by (simp add: spend_def)

lemma spends_nth_bounds:
  assumes "0 \<le> hl" "\<forall>x. 0 \<le> x \<longrightarrow> 0 \<le> offer x" "i < length rs"
  shows "0 \<le> spends rs hl offer ! i \<and> spends rs hl offer ! i \<le> max 0 (rs ! i)"
  using assms
proof (induction rs arbitrary: hl i)
  case Nil
  then show ?case by simp
next
  case (Cons r rs)
  have b: "0 \<le> spend r hl (offer hl)" "spend r hl (offer hl) \<le> hl"
    "spend r hl (offer hl) \<le> max 0 r"
    using Cons.prems by (simp_all add: spend_bounds)
  show ?case
  proof (cases i)
    case 0
    with b show ?thesis by simp
  next
    case (Suc k)
    with Cons.prems b Cons.IH [of "hl - spend r hl (offer hl)" k] show ?thesis by simp
  qed
qed

lemma spends_sum_bounds:
  assumes "0 \<le> hl" "\<forall>x. 0 \<le> x \<longrightarrow> 0 \<le> offer x"
  shows "0 \<le> sum_list (spends rs hl offer) \<and> sum_list (spends rs hl offer) \<le> hl"
  using assms
proof (induction rs arbitrary: hl)
  case Nil
  then show ?case by simp
next
  case (Cons r rs)
  have b: "0 \<le> spend r hl (offer hl)" "spend r hl (offer hl) \<le> hl"
    using Cons.prems by (simp_all add: spend_bounds)
  with Cons.prems Cons.IH [of "hl - spend r hl (offer hl)"] show ?case by simp
qed

lemma spends_nth_cap:
  assumes "0 \<le> hl" "0 \<le> c" "i < length rs"
  shows "spends rs hl (\<lambda>_. c) ! i \<le> c"
  using assms
proof (induction rs arbitrary: hl i)
  case Nil
  then show ?case by simp
next
  case (Cons r rs)
  have b: "spend r hl c \<le> hl" "spend r hl c \<le> c"
    using Cons.prems by (simp_all add: spend_bounds)
  show ?case
  proof (cases i)
    case 0
    with b show ?thesis by simp
  next
    case (Suc k)
    with Cons.prems b Cons.IH [of "hl - spend r hl c" k] show ?thesis by simp
  qed
qed

lemma spends_exhaust:
  assumes "0 \<le> hl"
  shows "hl - sum_list (spends rs hl (\<lambda>x. x)) = 0
       \<or> (\<forall>i<length rs. 0 < rs ! i \<longrightarrow> spends rs hl (\<lambda>x. x) ! i = rs ! i)"
  using assms
proof (induction rs arbitrary: hl)
  case Nil
  then show ?case by simp
next
  case (Cons r rs)
  let ?s = "spend r hl hl"
  have b: "0 \<le> ?s" "?s \<le> hl" using Cons.prems by (simp_all add: spend_bounds)
  have ih: "hl - ?s - sum_list (spends rs (hl - ?s) (\<lambda>x. x)) = 0
       \<or> (\<forall>i<length rs. 0 < rs ! i \<longrightarrow> spends rs (hl - ?s) (\<lambda>x. x) ! i = rs ! i)"
    using Cons.IH [of "hl - ?s"] b by simp
  have z: "sum_list (spends rs 0 (\<lambda>x. x)) = 0"
    using spends_sum_bounds [of 0 "\<lambda>x. x" rs] by simp
  show ?case
  proof (cases "0 < r \<and> ?s \<noteq> r")
    case True
    then have "?s = hl" using Cons.prems by (auto simp add: spend_def min_def split: if_splits)
    then show ?thesis using z by simp
  next
    case False
    from ih show ?thesis
    proof
      assume "hl - ?s - sum_list (spends rs (hl - ?s) (\<lambda>x. x)) = 0"
      then show ?thesis by simp
    next
      assume a: "\<forall>i<length rs. 0 < rs ! i \<longrightarrow> spends rs (hl - ?s) (\<lambda>x. x) ! i = rs ! i"
      have "\<forall>i<length (r # rs). 0 < (r # rs) ! i \<longrightarrow> spends (r # rs) hl (\<lambda>x. x) ! i = (r # rs) ! i"
      proof (intro allI impI)
        fix i assume i: "i < length (r # rs)" "0 < (r # rs) ! i"
        show "spends (r # rs) hl (\<lambda>x. x) ! i = (r # rs) ! i"
        proof (cases i)
          case 0
          with i False show ?thesis by simp
        next
          case (Suc k)
          with i a show ?thesis by simp
        qed
      qed
      then show ?thesis by blast
    qed
  qed
qed

text \<open>What one range loop does, in terms of the store before and after.\<close>

lemma burn_range_effect:
  assumes ok: "ptrs_ok h ps day"
  shows "\<exists>h' hl'. burn_range h ps day hl offer = Inr (h', hl')
     \<and> length h' = length h
     \<and> (\<forall>q. q \<notin> set ps \<longrightarrow> h' ! q = h ! q)
     \<and> (\<forall>p\<in>set ps. h' ! p = burnt (h ! p) day (spent h h' day p))
     \<and> map (spent h h' day) ps = spends (rems h ps day) hl offer
     \<and> hl' = hl - hours_spent h h' day ps"
proof -
  let ?ss = "spends (rems h ps day) hl offer"
  let ?h' = "apply_spends h ps ?ss day"
  have d: "distinct ps" and v: "\<forall>p\<in>set ps. p < length h" and dk: "\<forall>p\<in>set ps. day_ok (h ! p) day"
    using ok by (simp_all add: ptrs_ok_def)
  have nth: "?h' ! (ps ! i) = burnt (h ! (ps ! i)) day (?ss ! i)" if "i < length ps" for i
    using apply_spends_nth [OF d v _ that, of ?ss day] by simp
  have sp: "spent h ?h' day (ps ! i) = ?ss ! i" if "i < length ps" for i
    using nth [OF that] dk that by (simp add: spent_def rem_at_burnt_next)
  have m: "map (spent h ?h' day) ps = ?ss"
    by (rule nth_equalityI) (simp_all add: sp)
  have b: "\<forall>p\<in>set ps. ?h' ! p = burnt (h ! p) day (spent h ?h' day p)"
  proof
    fix p assume "p \<in> set ps"
    then obtain i where i: "i < length ps" "ps ! i = p" by (auto simp add: in_set_conv_nth)
    with nth [of i] sp [of i] show "?h' ! p = burnt (h ! p) day (spent h ?h' day p)" by simp
  qed
  have e: "burn_range h ps day hl offer = Inr (?h', hl - sum_list ?ss)"
    by (rule burn_range_eq [OF ok])
  show ?thesis
    apply (rule exI [of _ ?h'], rule exI [of _ "hl - sum_list ?ss"])
    using e b m by (simp add: apply_spends_other hours_spent_def)
qed

section \<open>Facts about the policies\<close>

lemma spent_nth:
  assumes "map (spent h h' day) ps = spends (rems h ps day) hl offer" "i < length ps"
  shows "spent h h' day (ps ! i) = spends (rems h ps day) hl offer ! i"
proof -
  have "spent h h' day (ps ! i) = map (spent h h' day) ps ! i" using assms(2) by simp
  then show ?thesis using assms(1) by simp
qed

lemma burn_range_props:
  assumes ok: "ptrs_ok h ps day" and hl: "0 \<le> hl" and off: "\<forall>x. 0 \<le> x \<longrightarrow> 0 \<le> offer x"
  obtains h' hl' where
    "burn_range h ps day hl offer = Inr (h', hl')"
    "day_effect h h' ps day"
    "map (spent h h' day) ps = spends (rems h ps day) hl offer"
    "hl' = hl - hours_spent h h' day ps" "0 \<le> hl'" "hl' \<le> hl"
proof -
  from burn_range_effect [OF ok, of hl offer] obtain h' hl' where
    e: "burn_range h ps day hl offer = Inr (h', hl')" and l: "length h' = length h"
    and fr: "\<forall>q. q \<notin> set ps \<longrightarrow> h' ! q = h ! q"
    and bt: "\<forall>p\<in>set ps. h' ! p = burnt (h ! p) day (spent h h' day p)"
    and m: "map (spent h h' day) ps = spends (rems h ps day) hl offer"
    and r: "hl' = hl - hours_spent h h' day ps"
    by (elim exE conjE)
  have b: "0 \<le> spent h h' day p \<and> spent h h' day p \<le> max 0 (rem_at (h ! p) day)"
    if "p \<in> set ps" for p
  proof -
    from that obtain i where i: "i < length ps" "ps ! i = p" by (auto simp add: in_set_conv_nth)
    have s: "spent h h' day p = spends (rems h ps day) hl offer ! i"
      using spent_nth [OF m i(1)] i(2) by simp
    have r: "rems h ps day ! i = rem_at (h ! p) day" using i by (simp add: rems_def)
    from spends_nth_bounds [OF hl off, of i "rems h ps day"] i s r
    show ?thesis by simp
  qed
  have de: "day_effect h h' ps day"
    unfolding day_effect_def using l fr bt b by blast
  have "hours_spent h h' day ps = sum_list (spends (rems h ps day) hl offer)"
    using m by (simp add: hours_spent_def)
  with spends_sum_bounds [OF hl off, of "rems h ps day"] r
  have "0 \<le> hl'" "hl' \<le> hl" by simp_all
  with e de m r that show thesis by blast
qed

lemma burn_range_cap:
  assumes "map (spent h h' day) ps = spends (rems h ps day) hl (\<lambda>_. c)" "0 \<le> hl" "0 \<le> c"
    "p \<in> set ps"
  shows "spent h h' day p \<le> c"
proof -
  from assms(4) obtain i where i: "i < length ps" "ps ! i = p" by (auto simp add: in_set_conv_nth)
  from spent_nth [OF assms(1) i(1)] spends_nth_cap [OF assms(2,3), of i "rems h ps day"] i
  show ?thesis by simp
qed

lemma burn_range_exhaust:
  assumes m: "map (spent h h' day) ps = spends (rems h ps day) hl (\<lambda>x. x)" and hl: "0 \<le> hl"
  shows "hl - hours_spent h h' day ps = 0
       \<or> (\<forall>p\<in>set ps. 0 < rem_at (h ! p) day \<longrightarrow> spent h h' day p = rem_at (h ! p) day)"
proof -
  have hs: "hours_spent h h' day ps = sum_list (spends (rems h ps day) hl (\<lambda>x. x))"
    using m by (simp add: hours_spent_def)
  from spends_exhaust [OF hl, of "rems h ps day"] show ?thesis
  proof
    assume "hl - sum_list (spends (rems h ps day) hl (\<lambda>x. x)) = 0"
    with hs show ?thesis by simp
  next
    assume a: "\<forall>i<length (rems h ps day). 0 < rems h ps day ! i \<longrightarrow>
                 spends (rems h ps day) hl (\<lambda>x. x) ! i = rems h ps day ! i"
    have "spent h h' day p = rem_at (h ! p) day" if p: "p \<in> set ps" "0 < rem_at (h ! p) day" for p
    proof -
      from p obtain i where i: "i < length ps" "ps ! i = p" by (auto simp add: in_set_conv_nth)
      have r: "rems h ps day ! i = rem_at (h ! p) day" using i by (simp add: rems_def)
      from spent_nth [OF m i(1)] a i p r show ?thesis by simp
    qed
    then show ?thesis by blast
  qed
qed

lemma ptrs_ok_mset:
  assumes "mset ps' = mset ps"
  shows "ptrs_ok h ps' day = ptrs_ok h ps day"
  using mset_eq_setD [OF assms] mset_eq_imp_distinct_iff [OF assms]
  by (simp add: ptrs_ok_def)

lemma hours_spent_mset:
  assumes "mset ps' = mset ps"
  shows "hours_spent h h' day ps' = hours_spent h h' day ps"
proof -
  have "sum_list (map (spent h h' day) ps') = sum_mset (image_mset (spent h h' day) (mset ps'))"
    by (simp add: sum_mset_sum_list [symmetric])
  also have "\<dots> = sum_mset (image_mset (spent h h' day) (mset ps))" using assms by simp
  also have "\<dots> = sum_list (map (spent h h' day) ps)"
    by (simp add: sum_mset_sum_list [symmetric])
  finally show ?thesis by (simp add: hours_spent_def)
qed

lemma day_effect_set:
  assumes "set ps' = set ps"
  shows "day_effect h h' ps' day = day_effect h h' ps day"
  by (simp add: day_effect_def assms)

text \<open>A single pass that offers the whole capacity, in any order of the population.\<close>

lemma single_pass:
  assumes ok: "ptrs_ok h ps day" and m: "mset ps' = mset ps"
  obtains h' hl' where
    "burn_range h ps' day workhoursday (\<lambda>hl. hl) = Inr (h', hl')"
    "day_effect h h' ps day"
    "hours_spent h h' day ps = workhoursday - hl'" "0 \<le> hl'" "hl' \<le> workhoursday"
    "hl' = 0 \<or> (\<forall>p\<in>set ps. 0 < rem_at (h ! p) day \<longrightarrow> spent h h' day p = rem_at (h ! p) day)"
proof -
  have ok': "ptrs_ok h ps' day" using ok by (simp add: ptrs_ok_mset [OF m])
  have s: "set ps' = set ps" by (rule mset_eq_setD [OF m])
  have w: "0 \<le> workhoursday" by (simp add: workhoursday_def)
  have off: "\<forall>x::int. 0 \<le> x \<longrightarrow> 0 \<le> x" by simp
  obtain h' hl' where
    e: "burn_range h ps' day workhoursday (\<lambda>hl. hl) = Inr (h', hl')"
    "day_effect h h' ps' day"
    "map (spent h h' day) ps' = spends (rems h ps' day) workhoursday (\<lambda>hl. hl)"
    "hl' = workhoursday - hours_spent h h' day ps'" "0 \<le> hl'" "hl' \<le> workhoursday"
    by (rule burn_range_props [OF ok' w off])
  have hs: "hours_spent h h' day ps' = hours_spent h h' day ps" by (rule hours_spent_mset [OF m])
  show thesis
  proof (rule that [OF e(1) _ _ e(5,6)])
    show "day_effect h h' ps day" using e(2) by (simp add: day_effect_set [OF s])
    show "hours_spent h h' day ps = workhoursday - hl'" using e(4) hs by simp
    show "hl' = 0 \<or> (\<forall>p\<in>set ps. 0 < rem_at (h ! p) day \<longrightarrow> spent h h' day p = rem_at (h ! p) day)"
      using burn_range_exhaust [OF e(3) w] e(4) s by simp
  qed
qed

subsection \<open>The sort\<close>

lemma mset_swap_list:
  assumes "i < length xs" "j < length xs"
  shows "mset (swap xs i j) = mset xs"
  using assms by (simp add: swap_def mset_swap)

lemma insertion_inner_ok:
  assumes total: "\<forall>ys i j. mset ys = mset xs0 \<and> i < length ys \<and> j < length ys
                  \<longrightarrow> (\<exists>b. lss ys i j = Inr b)"
    and "mset xs = mset xs0" "j < length xs"
  shows "\<exists>ys. insertion_inner lss xs j = Inr ys \<and> mset ys = mset xs0"
  using assms(2,3)
proof (induction j arbitrary: xs)
  case 0
  then show ?case by simp
next
  case (Suc j)
  from total Suc.prems obtain b where b: "lss xs (Suc j) j = Inr b" by force
  show ?case
  proof (cases b)
    case True
    have m: "mset (swap xs (Suc j) j) = mset xs0"
      using Suc.prems by (simp add: mset_swap_list)
    have l: "j < length (swap xs (Suc j) j)" using Suc.prems by (simp add: swap_def)
    from Suc.IH [OF m l] b True show ?thesis by (simp add: pbind_def)
  next
    case False
    with b Suc.prems show ?thesis by (simp add: pbind_def)
  qed
qed

lemma insertion_outer_ok:
  assumes "\<forall>ys i j. mset ys = mset xs0 \<and> i < length ys \<and> j < length ys
                  \<longrightarrow> (\<exists>b. lss ys i j = Inr b)"
    and "mset xs = mset xs0" "b \<le> length xs"
  shows "\<exists>ys. insertion_outer lss xs i b = Inr ys \<and> mset ys = mset xs0"
  using assms
proof (induction lss xs i b rule: insertion_outer.induct)
  case (1 lss xs i b)
  note total = "1.prems"(1)
  show ?case
  proof (cases "i < b")
    case True
    with "1.prems" have "i < length xs" by simp
    from insertion_inner_ok [OF total "1.prems"(2) this]
    obtain ys where ys: "insertion_inner lss xs i = Inr ys" "mset ys = mset xs0" by blast
    have "length ys = length xs" using ys(2) "1.prems"(2) by (metis mset_eq_length)
    with "1.IH" [OF True total ys(2)] "1.prems" ys True show ?thesis
      by (simp add: pbind_def)
  next
    case False
    with "1.prems" show ?thesis by simp
  qed
qed

lemma sort_Slice_mset:
  assumes "\<forall>ys i j. mset ys = mset xs \<and> i < length ys \<and> j < length ys
                  \<longrightarrow> (\<exists>b. lss ys i j = Inr b)"
  shows "\<exists>ys. sort_Slice xs lss = Inr ys \<and> mset ys = mset xs"
  unfolding sort_Slice_def
  by (rule insertion_outer_ok [OF assms]) simp_all

lemma copyTickets_eq: "copyTickets sim = tickets sim"
  by (simp add: copyTickets_def map_nth)

lemma pop_ok_nth:
  assumes "pop_ok h sim day" "mset ys = mset (tickets sim)" "i < length ys"
  shows "ys ! i < length h" "day_ok (h ! (ys ! i)) day" "startday (h ! (ys ! i)) \<le> day"
proof -
  have "ys ! i \<in> set ys" using assms(3) by simp
  then have "ys ! i \<in> set (tickets sim)"
    by (simp only: mset_eq_setD [OF assms(2)])
  with assms(1) show "ys ! i < length h" "day_ok (h ! (ys ! i)) day" "startday (h ! (ys ! i)) \<le> day"
    by (simp_all add: pop_ok_def ptrs_ok_def)
qed

lemma slice_get_day:
  "day_ok t day \<Longrightarrow> slice_get (remaining t) day = Inr (rem_at t day)"
  by (simp add: slice_get_def day_ok_def rem_at_def)

lemma slice_get_nth: "i < length ys \<Longrightarrow> slice_get ys (int i) = Inr (ys ! i)"
  by (simp add: slice_get_def)

lemma less_Sjf_ok:
  assumes "pop_ok h sim day" "mset ys = mset (tickets sim)" "i < length ys" "j < length ys"
  shows "\<exists>b. less_Sjf h day ys i j = Inr b"
proof -
  have "less_Sjf h day ys i j = Inr (rem_at (h ! (ys ! i)) day < rem_at (h ! (ys ! j)) day)"
    unfolding less_Sjf_def
    using pop_ok_nth(1,2) [OF assms(1,2,3)] pop_ok_nth(1,2) [OF assms(1,2,4)] assms(3,4)
    by (simp add: pbind_def slice_get_nth deref_def slice_get_day)
  then show ?thesis by simp
qed

lemma less_Osjf_ok:
  assumes "pop_ok h sim day" "mset ys = mset (tickets sim)" "i < length ys" "j < length ys"
  shows "\<exists>b. less_Osjf h day ys i j = Inr b"
proof -
  have "less_Osjf h day ys i j =
      Inr (startday (h ! (ys ! i)) < startday (h ! (ys ! j))
           \<or> rem_at (h ! (ys ! i)) day < rem_at (h ! (ys ! j)) day)"
    unfolding less_Osjf_def
    using pop_ok_nth(1,2) [OF assms(1,2,3)] pop_ok_nth(1,2) [OF assms(1,2,4)] assms(3,4)
    by (simp add: pbind_def slice_get_nth deref_def slice_get_day)
  then show ?thesis by simp
qed

lemma less_Awsjf_ok:
  assumes "pop_ok h sim day" "mset ys = mset (tickets sim)" "i < length ys" "j < length ys"
  shows "\<exists>b. less_Awsjf h day ys i j = Inr b"
proof -
  have wi: "day + 1 - startday (h ! (ys ! i)) \<noteq> 0" "day + 1 - startday (h ! (ys ! j)) \<noteq> 0"
    using pop_ok_nth(3) [OF assms(1,2,3)] pop_ok_nth(3) [OF assms(1,2,4)] by simp_all
  have "less_Awsjf h day ys i j = Inr (sgn (rem_at (h ! (ys ! i)) day) * sgn (day + 1 - startday (h ! (ys ! i))) * (\<bar>rem_at (h ! (ys ! i)) day\<bar> div \<bar>day + 1 - startday (h ! (ys ! i))\<bar>)
     < sgn (rem_at (h ! (ys ! j)) day) * sgn (day + 1 - startday (h ! (ys ! j))) * (\<bar>rem_at (h ! (ys ! j)) day\<bar> div \<bar>day + 1 - startday (h ! (ys ! j))\<bar>))"
    unfolding less_Awsjf_def Let_def
    using pop_ok_nth(1,2) [OF assms(1,2,3)] pop_ok_nth(1,2) [OF assms(1,2,4)] assms(3,4) wi
    by (simp add: pbind_def slice_get_nth deref_def slice_get_day go_quo_def)
  then show ?thesis by simp
qed

lemma sorted_pass:
  assumes ok: "pop_ok h sim day"
    and total: "\<forall>ys i j. mset ys = mset (tickets sim) \<and> i < length ys \<and> j < length ys
                  \<longrightarrow> (\<exists>b. lss ys i j = Inr b)"
  obtains h' hl' where
    "pbind (sort_Slice (copyTickets sim) lss) (\<lambda>tscp'.
        burn_range h tscp' day workhoursday (\<lambda>hl. hl)) = Inr (h', hl')"
    "day_effect h h' (tickets sim) day"
    "hours_spent h h' day (tickets sim) = workhoursday - hl'" "0 \<le> hl'" "hl' \<le> workhoursday"
    "hl' = 0 \<or> (\<forall>p\<in>set (tickets sim). 0 < rem_at (h ! p) day
        \<longrightarrow> spent h h' day p = rem_at (h ! p) day)"
proof -
  from sort_Slice_mset [OF total] obtain ys where
    ys: "sort_Slice (tickets sim) lss = Inr ys" "mset ys = mset (tickets sim)" by blast
  have p: "ptrs_ok h (tickets sim) day" using ok by (simp add: pop_ok_def)
  obtain h' hl' where
    e: "burn_range h ys day workhoursday (\<lambda>hl. hl) = Inr (h', hl')"
    "day_effect h h' (tickets sim) day"
    "hours_spent h h' day (tickets sim) = workhoursday - hl'" "0 \<le> hl'" "hl' \<le> workhoursday"
    "hl' = 0 \<or> (\<forall>p\<in>set (tickets sim). 0 < rem_at (h ! p) day
        \<longrightarrow> spent h h' day p = rem_at (h ! p) day)"
    by (rule single_pass [OF p ys(2)])
  show thesis
    by (rule that [OF _ e(2,3,4,5,6)]) (simp add: copyTickets_eq ys(1) pbind_def e(1))
qed

text \<open>The effect of a day on the population, for the four single-pass policies.\<close>

lemma policy_single_pass:
  assumes ok: "pop_ok h sim day" and f: "f \<noteq> BurndownMaxWip"
  obtains h' hl' where
    "call_burndownaday f h sim day = Inr (h', hl')"
    "day_effect h h' (tickets sim) day"
    "hours_spent h h' day (tickets sim) = workhoursday - hl'" "0 \<le> hl'" "hl' \<le> workhoursday"
    "hl' = 0 \<or> (\<forall>p\<in>set (tickets sim). 0 < rem_at (h ! p) day
        \<longrightarrow> spent h h' day p = rem_at (h ! p) day)"
proof (cases f)
  case BurndownMaxWip
  with f show ?thesis by simp
next
  case BurndownOldestFirst
  have p: "ptrs_ok h (tickets sim) day" using ok by (simp add: pop_ok_def)
  have c: "call_burndownaday f h sim day
      = burn_range h (tickets sim) day workhoursday (\<lambda>hl. hl)"
    by (simp add: BurndownOldestFirst burndownOldestFirst_def)
  show ?thesis
    by (rule single_pass [OF p refl]) (rule that, simp_all only: c)
next
  case BurndownSjf
  have t: "\<forall>ys i j. mset ys = mset (tickets sim) \<and> i < length ys \<and> j < length ys
                  \<longrightarrow> (\<exists>b. less_Sjf h day ys i j = Inr b)"
    using less_Sjf_ok [OF ok] by blast
  have c: "call_burndownaday f h sim day
      = pbind (sort_Slice (copyTickets sim) (less_Sjf h day)) (\<lambda>tscp'.
        burn_range h tscp' day workhoursday (\<lambda>hl. hl))"
    by (simp add: BurndownSjf burndownSjf_def)
  show ?thesis
    by (rule sorted_pass [OF ok t]) (rule that, simp_all only: c)
next
  case BurndownOsjf
  have t: "\<forall>ys i j. mset ys = mset (tickets sim) \<and> i < length ys \<and> j < length ys
                  \<longrightarrow> (\<exists>b. less_Osjf h day ys i j = Inr b)"
    using less_Osjf_ok [OF ok] by blast
  have c: "call_burndownaday f h sim day
      = pbind (sort_Slice (copyTickets sim) (less_Osjf h day)) (\<lambda>tscp'.
        burn_range h tscp' day workhoursday (\<lambda>hl. hl))"
    by (simp add: BurndownOsjf burndownOsjf_def)
  show ?thesis
    by (rule sorted_pass [OF ok t]) (rule that, simp_all only: c)
next
  case BurndownAwsjf
  have t: "\<forall>ys i j. mset ys = mset (tickets sim) \<and> i < length ys \<and> j < length ys
                  \<longrightarrow> (\<exists>b. less_Awsjf h day ys i j = Inr b)"
    using less_Awsjf_ok [OF ok] by blast
  have c: "call_burndownaday f h sim day
      = pbind (sort_Slice (copyTickets sim) (less_Awsjf h day)) (\<lambda>tscp'.
        burn_range h tscp' day workhoursday (\<lambda>hl. hl))"
    by (simp add: BurndownAwsjf burndownAwsjf_def)
  show ?thesis
    by (rule sorted_pass [OF ok t]) (rule that, simp_all only: c)
qed

lemma day_effect_ptrs_ok:
  assumes "ptrs_ok h ps day" "day_effect h h' ps day"
  shows "ptrs_ok h' ps day"
  using assms by (simp add: ptrs_ok_def day_effect_def)

lemma rem_at_burnt_same: "0 \<le> day \<Longrightarrow> rem_at (burnt t day s) day = rem_at t day"
  by (simp add: rem_at_burnt_other)

text \<open>The two passes of \<^verbatim>\<open>burndownMaxWip\<close>.\<close>

lemma maxwip_first_pass:
  assumes ok: "ptrs_ok h ps day"
  obtains h1 hl1 where
    "burn_range h ps day workhoursday (\<lambda>_. 2) = Inr (h1, hl1)"
    "day_effect h h1 ps day"
    "\<forall>p\<in>set ps. spent h h1 day p \<le> 2"
    "hours_spent h h1 day ps = workhoursday - hl1" "0 \<le> hl1" "hl1 \<le> workhoursday"
proof -
  have w: "0 \<le> workhoursday" by (simp add: workhoursday_def)
  have off: "\<forall>x::int. 0 \<le> x \<longrightarrow> (0::int) \<le> 2" by simp
  obtain h1 hl1 where
    e: "burn_range h ps day workhoursday (\<lambda>_. 2) = Inr (h1, hl1)"
    "day_effect h h1 ps day"
    "map (spent h h1 day) ps = spends (rems h ps day) workhoursday (\<lambda>_. 2)"
    "hl1 = workhoursday - hours_spent h h1 day ps" "0 \<le> hl1" "hl1 \<le> workhoursday"
    by (rule burn_range_props [OF ok w off])
  have c: "\<forall>p\<in>set ps. spent h h1 day p \<le> 2"
    using burn_range_cap [OF e(3) w] by simp
  show thesis
    by (rule that [OF e(1,2) c _ e(5,6)]) (simp add: e(4))
qed

lemma maxwip_second_pass:
  assumes ok: "ptrs_ok h ps day" and first: "day_effect h h1 ps day" and hl1: "0 \<le> hl1"
  obtains h2 hl2 where
    "burn_range h1 ps day hl1 (\<lambda>hl. hl) = Inr (h2, hl2)"
    "day_effect h h2 ps day"
    "hours_spent h h2 day ps = hl1 - hl2" "0 \<le> hl2" "hl2 \<le> hl1"
proof -
  have o: "ptrs_ok h1 ps day" by (rule day_effect_ptrs_ok [OF ok first])
  have off: "\<forall>x::int. 0 \<le> x \<longrightarrow> 0 \<le> x" by simp
  obtain h2 hl2 where
    e: "burn_range h1 ps day hl1 (\<lambda>hl. hl) = Inr (h2, hl2)"
    "day_effect h1 h2 ps day"
    "map (spent h1 h2 day) ps = spends (rems h1 ps day) hl1 (\<lambda>hl. hl)"
    "hl2 = hl1 - hours_spent h1 h2 day ps" "0 \<le> hl2" "hl2 \<le> hl1"
    by (rule burn_range_props [OF o hl1 off])
  have d: "0 \<le> day" if "p \<in> set ps" for p
    using ok that by (auto simp add: ptrs_ok_def day_ok_def)
  have b1: "h1 ! p = burnt (h ! p) day (spent h h1 day p)" if "p \<in> set ps" for p
    using first that by (simp add: day_effect_def)
  have r: "rem_at (h1 ! p) day = rem_at (h ! p) day" if "p \<in> set ps" for p
    using b1 [OF that] d [OF that] by (simp add: rem_at_burnt_same)
  have sp: "spent h h2 day p = spent h1 h2 day p" if "p \<in> set ps" for p
    using r [OF that] by (simp add: spent_def)
  have b2: "h2 ! p = burnt (h1 ! p) day (spent h1 h2 day p)
      \<and> 0 \<le> spent h1 h2 day p \<and> spent h1 h2 day p \<le> max 0 (rem_at (h1 ! p) day)"
    if "p \<in> set ps" for p
    using e(2) that by (simp add: day_effect_def)
  have b: "h2 ! p = burnt (h ! p) day (spent h h2 day p)
      \<and> 0 \<le> spent h h2 day p \<and> spent h h2 day p \<le> max 0 (rem_at (h ! p) day)"
    if "p \<in> set ps" for p
    using b2 [OF that] b1 [OF that] d [OF that] sp [OF that] r [OF that]
    by (simp add: burnt_burnt)
  have hs: "hours_spent h h2 day ps = hours_spent h1 h2 day ps"
    unfolding hours_spent_def by (rule arg_cong [of _ _ sum_list]) (simp add: sp)
  have l: "length h2 = length h" "\<forall>q. q \<notin> set ps \<longrightarrow> h2 ! q = h ! q"
    using e(2) first by (simp_all add: day_effect_def)
  have de: "day_effect h h2 ps day"
    unfolding day_effect_def using l b by blast
  show thesis
    by (rule that [OF e(1) de _ e(5,6)]) (simp add: e(4) hs)
qed

lemma burndownMaxWip_unfold:
  "burndownMaxWip h sim day =
     pbind (burn_range h (tickets sim) day workhoursday (\<lambda>_. 2)) (\<lambda>(h1, hoursleft1).
       if hoursleft1 > 0 then burn_range h1 (tickets sim) day hoursleft1 (\<lambda>hl. hl)
       else Inr (h1, hoursleft1))"
  by (simp add: burndownMaxWip_def)

text \<open>The effect of a day on the population, for every policy.\<close>

lemma policy_effect:
  assumes ok: "pop_ok h sim day"
  obtains h' hl' where
    "call_burndownaday f h sim day = Inr (h', hl')"
    "day_effect h h' (tickets sim) day"
    "hours_spent h h' day (tickets sim) \<le> workhoursday - hl'" "0 \<le> hl'" "hl' \<le> workhoursday"
proof (cases "f = BurndownMaxWip")
  case False
  obtain h' hl' where
    a: "call_burndownaday f h sim day = Inr (h', hl')"
    "day_effect h h' (tickets sim) day"
    "hours_spent h h' day (tickets sim) = workhoursday - hl'" "0 \<le> hl'" "hl' \<le> workhoursday"
    "hl' = 0 \<or> (\<forall>p\<in>set (tickets sim). 0 < rem_at (h ! p) day
        \<longrightarrow> spent h h' day p = rem_at (h ! p) day)"
    by (rule policy_single_pass [OF ok False])
  show ?thesis
    by (rule that [OF a(1,2) _ a(4,5)]) (simp add: a(3))
next
  case True
  have p: "ptrs_ok h (tickets sim) day" using ok by (simp add: pop_ok_def)
  obtain h1 hl1 where
    a: "burn_range h (tickets sim) day workhoursday (\<lambda>_. 2) = Inr (h1, hl1)"
    "day_effect h h1 (tickets sim) day"
    "\<forall>p\<in>set (tickets sim). spent h h1 day p \<le> 2"
    "hours_spent h h1 day (tickets sim) = workhoursday - hl1" "0 \<le> hl1" "hl1 \<le> workhoursday"
    by (rule maxwip_first_pass [OF p])
  show ?thesis
  proof (cases "0 < hl1")
    case False
    have e: "call_burndownaday f h sim day = Inr (h1, hl1)"
      using True a(1) False by (simp add: burndownMaxWip_unfold pbind_def)
    show ?thesis
      by (rule that [OF e a(2) _ a(5,6)]) (simp add: a(4))
  next
    case pos: True
    obtain h2 hl2 where
      b: "burn_range h1 (tickets sim) day hl1 (\<lambda>hl. hl) = Inr (h2, hl2)"
      "day_effect h h2 (tickets sim) day"
      "hours_spent h h2 day (tickets sim) = hl1 - hl2" "0 \<le> hl2" "hl2 \<le> hl1"
      by (rule maxwip_second_pass [OF p a(2,5)])
    have e: "call_burndownaday f h sim day = Inr (h2, hl2)"
      using True a(1) pos b(1) by (simp add: burndownMaxWip_unfold pbind_def)
    show ?thesis
      by (rule that [OF e b(2) _ b(4)]) (use a(6) b(3,5) in simp_all)
  qed
qed

lemma burn_range_trace_props:
  assumes "ptrs_ok h ps day" "0 \<le> hl" "\<forall>x. 0 \<le> x \<longrightarrow> 0 \<le> offer x"
    "burn_range h ps day hl offer = Inr (h', hl')"
  shows "sorted_wrt (\<ge>) (burn_range_trace h ps day hl offer)
       \<and> (\<forall>x\<in>set (burn_range_trace h ps day hl offer). hl' \<le> x \<and> x \<le> hl)
       \<and> last (burn_range_trace h ps day hl offer) = hl'"
  using assms
proof (induction ps arbitrary: h hl)
  case Nil
  then show ?case by simp
next
  case (Cons p ps)
  let ?s = "spend (rem_at (h ! p) day) hl (offer hl)"
  let ?h1 = "h[p := burnt (h ! p) day ?s]"
  from Cons.prems(1) have p: "p \<notin> set ps" "p < length h" "day_ok (h ! p) day" "ptrs_ok h ps day"
    by (simp_all add: ptrs_ok_Cons)
  have c: "call_burndownhours h p day hl (offer hl) = Inr (?h1, hl - ?s)"
    using p by (simp add: call_burndownhours_eq)
  have ok1: "ptrs_ok ?h1 ps day" using p by (simp add: ptrs_ok_update)
  have b: "0 \<le> ?s" "?s \<le> hl" using Cons.prems(2,3) by (simp_all add: spend_bounds)
  have r: "burn_range ?h1 ps day (hl - ?s) offer = Inr (h', hl')"
    using Cons.prems(4) c by (simp add: pbind_def)
  have hl1: "0 \<le> hl - ?s" using b by simp
  from Cons.IH [OF ok1 hl1 Cons.prems(3) r]
  have ih: "sorted_wrt (\<ge>) (burn_range_trace ?h1 ps day (hl - ?s) offer)"
    "\<forall>x\<in>set (burn_range_trace ?h1 ps day (hl - ?s) offer). hl' \<le> x \<and> x \<le> hl - ?s"
    "last (burn_range_trace ?h1 ps day (hl - ?s) offer) = hl'"
    by simp_all
  have ne: "burn_range_trace ?h1 ps day (hl - ?s) offer \<noteq> []" by (cases ps) simp_all
  have t: "burn_range_trace h (p # ps) day hl offer
      = hl # burn_range_trace ?h1 ps day (hl - ?s) offer"
    using c by simp
  have le: "hl' \<le> hl - ?s" using ih(2,3) ne last_in_set by fastforce
  show ?case
    unfolding t using ih b ne le by auto
qed

lemma burn_range_trace_nonempty: "burn_range_trace h ps day hl offer \<noteq> []"
  by (cases ps) simp_all

text \<open>Each single-pass policy is one range loop over some order of the population.\<close>

lemma policy_order:
  assumes ok: "pop_ok h sim day" and f: "f \<noteq> BurndownMaxWip"
  shows "\<exists>ys. mset ys = mset (tickets sim)
     \<and> call_burndownaday f h sim day = burn_range h ys day workhoursday (\<lambda>hl. hl)
     \<and> hoursleft_trace f h sim day = burn_range_trace h ys day workhoursday (\<lambda>hl. hl)"
proof (cases f)
  case BurndownMaxWip
  with f show ?thesis by simp
next
  case BurndownOldestFirst
  then show ?thesis
    by (intro exI [of _ "tickets sim"]) (simp add: burndownOldestFirst_def)
next
  case BurndownSjf
  have t: "\<forall>ys i j. mset ys = mset (tickets sim) \<and> i < length ys \<and> j < length ys
                  \<longrightarrow> (\<exists>b. less_Sjf h day ys i j = Inr b)"
    using less_Sjf_ok [OF ok] by blast
  from sort_Slice_mset [OF t] obtain ys where
    ys: "sort_Slice (tickets sim) (less_Sjf h day) = Inr ys" "mset ys = mset (tickets sim)"
    by blast
  show ?thesis
    by (intro exI [of _ ys])
       (simp add: BurndownSjf burndownSjf_def copyTickets_eq ys pbind_def)
next
  case BurndownOsjf
  have t: "\<forall>ys i j. mset ys = mset (tickets sim) \<and> i < length ys \<and> j < length ys
                  \<longrightarrow> (\<exists>b. less_Osjf h day ys i j = Inr b)"
    using less_Osjf_ok [OF ok] by blast
  from sort_Slice_mset [OF t] obtain ys where
    ys: "sort_Slice (tickets sim) (less_Osjf h day) = Inr ys" "mset ys = mset (tickets sim)"
    by blast
  show ?thesis
    by (intro exI [of _ ys])
       (simp add: BurndownOsjf burndownOsjf_def copyTickets_eq ys pbind_def)
next
  case BurndownAwsjf
  have t: "\<forall>ys i j. mset ys = mset (tickets sim) \<and> i < length ys \<and> j < length ys
                  \<longrightarrow> (\<exists>b. less_Awsjf h day ys i j = Inr b)"
    using less_Awsjf_ok [OF ok] by blast
  from sort_Slice_mset [OF t] obtain ys where
    ys: "sort_Slice (tickets sim) (less_Awsjf h day) = Inr ys" "mset ys = mset (tickets sim)"
    by blast
  show ?thesis
    by (intro exI [of _ ys])
       (simp add: BurndownAwsjf burndownAwsjf_def copyTickets_eq ys pbind_def)
qed

lemma hoursleft_trace_props:
  assumes ok: "pop_ok h sim day" and c: "call_burndownaday f h sim day = Inr (h', hl')"
  shows "sorted_wrt (\<ge>) (hoursleft_trace f h sim day)
       \<and> (\<forall>x\<in>set (hoursleft_trace f h sim day). hl' \<le> x \<and> x \<le> workhoursday)
       \<and> last (hoursleft_trace f h sim day) = hl'"
proof (cases "f = BurndownMaxWip")
  case False
  from policy_order [OF ok False] obtain ys where
    ys: "mset ys = mset (tickets sim)"
    "call_burndownaday f h sim day = burn_range h ys day workhoursday (\<lambda>hl. hl)"
    "hoursleft_trace f h sim day = burn_range_trace h ys day workhoursday (\<lambda>hl. hl)"
    by blast
  have p: "ptrs_ok h ys day" using ok by (simp add: pop_ok_def ptrs_ok_mset [OF ys(1)])
  have w: "0 \<le> workhoursday" by (simp add: workhoursday_def)
  have off: "\<forall>x::int. 0 \<le> x \<longrightarrow> 0 \<le> x" by simp
  have r: "burn_range h ys day workhoursday (\<lambda>hl. hl) = Inr (h', hl')" using c ys(2) by simp
  show ?thesis
    unfolding ys(3) by (rule burn_range_trace_props [OF p w off r])
next
  case True
  have p: "ptrs_ok h (tickets sim) day" using ok by (simp add: pop_ok_def)
  have w: "0 \<le> workhoursday" by (simp add: workhoursday_def)
  have off2: "\<forall>x::int. 0 \<le> x \<longrightarrow> (0::int) \<le> 2" by simp
  have off: "\<forall>x::int. 0 \<le> x \<longrightarrow> 0 \<le> x" by simp
  obtain h1 hl1 where
    a: "burn_range h (tickets sim) day workhoursday (\<lambda>_. 2) = Inr (h1, hl1)"
    "day_effect h h1 (tickets sim) day"
    "\<forall>p\<in>set (tickets sim). spent h h1 day p \<le> 2"
    "hours_spent h h1 day (tickets sim) = workhoursday - hl1" "0 \<le> hl1" "hl1 \<le> workhoursday"
    by (rule maxwip_first_pass [OF p])
  have t1: "sorted_wrt (\<ge>) (burn_range_trace h (tickets sim) day workhoursday (\<lambda>_. 2))"
    "\<forall>x\<in>set (burn_range_trace h (tickets sim) day workhoursday (\<lambda>_. 2)).
        hl1 \<le> x \<and> x \<le> workhoursday"
    "last (burn_range_trace h (tickets sim) day workhoursday (\<lambda>_. 2)) = hl1"
    using burn_range_trace_props [OF p w off2 a(1)] by simp_all
  show ?thesis
  proof (cases "0 < hl1")
    case False
    have e: "hl' = hl1"
      using True a(1) False c by (simp add: burndownMaxWip_unfold pbind_def)
    have t: "hoursleft_trace f h sim day
        = burn_range_trace h (tickets sim) day workhoursday (\<lambda>_. 2)"
      using True a(1) False by simp
    show ?thesis unfolding t e using t1 by simp
  next
    case pos: True
    have o: "ptrs_ok h1 (tickets sim) day" by (rule day_effect_ptrs_ok [OF p a(2)])
    have r: "burn_range h1 (tickets sim) day hl1 (\<lambda>hl. hl) = Inr (h', hl')"
      using True a(1) pos c by (simp add: burndownMaxWip_unfold pbind_def)
    have t2: "sorted_wrt (\<ge>) (burn_range_trace h1 (tickets sim) day hl1 (\<lambda>hl. hl))"
      "\<forall>x\<in>set (burn_range_trace h1 (tickets sim) day hl1 (\<lambda>hl. hl)). hl' \<le> x \<and> x \<le> hl1"
      "last (burn_range_trace h1 (tickets sim) day hl1 (\<lambda>hl. hl)) = hl'"
      using burn_range_trace_props [OF o a(5) off r] by simp_all
    have le: "hl' \<le> hl1"
      using t2(2,3) burn_range_trace_nonempty [of h1 "tickets sim" day hl1 "\<lambda>hl. hl"]
        last_in_set by fastforce
    have t: "hoursleft_trace f h sim day
        = burn_range_trace h (tickets sim) day workhoursday (\<lambda>_. 2)
          @ burn_range_trace h1 (tickets sim) day hl1 (\<lambda>hl. hl)"
      using True a(1) pos by simp
    have s: "sorted_wrt (\<ge>) (hoursleft_trace f h sim day)"
      unfolding t sorted_wrt_append using t1(1,2) t2(1,2) by fastforce
    have b: "\<forall>x\<in>set (hoursleft_trace f h sim day). hl' \<le> x \<and> x \<le> workhoursday"
      unfolding t using t1(2) t2(2) le a(6) by fastforce
    have l: "last (hoursleft_trace f h sim day) = hl'"
      unfolding t using t2(3) burn_range_trace_nonempty by simp
    from s b l show ?thesis by blast
  qed
qed

lemma pop_ok_two_tickets: "pop_ok two_tickets (sim_of f) 1"
  by (simp add: pop_ok_def ptrs_ok_def day_ok_def two_tickets_def sim_of_def)

section \<open>Facts about the policies on the memory\<close>

lemma int64_ticket_agree:
  assumes "day_ok t day" "int64_ticket t day" "startday t \<le> day" "int64 hl" "0 \<le> hours"
  shows "burndownhours_int64 t day hl hours = burndownhours t day hl hours"
proof -
  from assms(1,2) have "day + 1 < 2 ^ 63" by (simp add: day_ok_def int64_ticket_def)
  with assms(2,3) have "int64 (day + 1 - startday t)"
    by (simp add: int64_def int64_ticket_def)
  with assms show ?thesis
    by (intro burndownhours_int64_eq) (simp_all add: int64_ticket_def)
qed

lemma int64_ticket_burnt:
  assumes "int64_ticket t day" "0 \<le> day"
  shows "int64_ticket (burnt t day sp) day"
  using assms by (simp add: int64_ticket_def rem_at_burnt_same)

text \<open>The range loop over a slice in the memory, from index \<open>k\<close>, changes the ticket
  objects as the range loop over the pointers does, and nothing else.\<close>

lemma burn_range_mem_sim:
  assumes "k + length qs \<le> slen s"
    and "\<forall>i<length qs. arrays m ! sarray s ! (k + i) = Some (qs ! i)"
    and "ptrs_ok (objs m) qs day"
    and "\<forall>p\<in>set qs. int64_ticket (objs m ! p) day \<and> startday (objs m ! p) \<le> day"
    and "0 \<le> hl" "int64 hl" "\<forall>x. 0 \<le> x \<longrightarrow> 0 \<le> offer x"
  shows "burn_range_mem m s [k..<k + length qs] day hl offer =
     (case burn_range (objs m) qs day hl offer of
        Inl e \<Rightarrow> Inl e
      | Inr (h', hl') \<Rightarrow> Inr (m\<lparr>objs := h'\<rparr>, hl'))"
  using assms(1-6)
proof (induction qs arbitrary: m k hl)
  case Nil
  then show ?case by simp
next
  case (Cons q qs)
  note off = assms(7)
  let ?h = "objs m"
  let ?sp = "spend (rem_at (?h ! q) day) hl (offer hl)"
  let ?h1 = "?h[q := burnt (?h ! q) day ?sp]"
  let ?m1 = "m\<lparr>objs := ?h1\<rparr>"
  from Cons.prems(3) have q: "q \<notin> set qs" "q < length ?h" "day_ok (?h ! q) day"
    "ptrs_ok ?h qs day"
    by (simp_all add: ptrs_ok_Cons)
  from Cons.prems(4) have t: "int64_ticket (?h ! q) day" "startday (?h ! q) \<le> day" by simp_all
  have o: "0 \<le> offer hl" using off Cons.prems(5) by simp
  have ix: "index_mem m s (int k) = Inr (Some q)"
    using Cons.prems(1) Cons.prems(2) [rule_format, of 0] by (simp add: index_mem_def)
  have ag: "burndownhours_int64 (?h ! q) day hl (offer hl)
      = Inr (burnt (?h ! q) day ?sp, hl - ?sp)"
    using int64_ticket_agree [OF q(3) t Cons.prems(6) o] by (simp add: burndownhours_burnt [OF q(3)])
  have c1: "call_burndownhours_mem m (Some q) day hl (offer hl) = Inr (?m1, hl - ?sp)"
    using q(2) by (simp add: call_burndownhours_mem_def deref_def pbind_def ag)
  have c2: "call_burndownhours ?h q day hl (offer hl) = Inr (?h1, hl - ?sp)"
    by (rule call_burndownhours_eq [OF q(2,3)])
  have b: "0 \<le> ?sp" "?sp \<le> hl" using spend_bounds [OF Cons.prems(5) o] by simp_all
  have p1: "Suc k + length qs \<le> slen s" using Cons.prems(1) by simp
  have p2: "\<forall>i<length qs. arrays ?m1 ! sarray s ! (Suc k + i) = Some (qs ! i)"
    using Cons.prems(2) by auto
  have p3: "ptrs_ok (objs ?m1) qs day" using q(1,4) by (simp add: ptrs_ok_update)
  have p4: "\<forall>p\<in>set qs. int64_ticket (objs ?m1 ! p) day \<and> startday (objs ?m1 ! p) \<le> day"
    using Cons.prems(4) q(1) by (simp add: nth_update_notin)
  have p5: "0 \<le> hl - ?sp" using b by simp
  have p6: "int64 (hl - ?sp)" using b Cons.prems(5,6) by (simp add: int64_def)
  have u: "[k..<k + length (q # qs)] = k # [Suc k..<Suc k + length qs]"
    using upt_shift [of k "length qs"] by simp
  have r: "burn_range (objs m) (q # qs) day hl offer = burn_range ?h1 qs day (hl - ?sp) offer"
    by (simp add: c2 pbind_def)
  have "burn_range_mem m s [k..<k + length (q # qs)] day hl offer
      = burn_range_mem ?m1 s [Suc k..<Suc k + length qs] day (hl - ?sp) offer"
    unfolding u by (simp add: ix c1 pbind_def)
  also have "\<dots> = (case burn_range (objs ?m1) qs day (hl - ?sp) offer of
        Inl e \<Rightarrow> Inl e
      | Inr (h', hl') \<Rightarrow> Inr (?m1\<lparr>objs := h'\<rparr>, hl'))"
    by (rule Cons.IH [OF p1 p2 p3 p4 p5 p6])
  also have "\<dots> = (case burn_range ?h1 qs day (hl - ?sp) offer of
        Inl e \<Rightarrow> Inl e
      | Inr (h', hl') \<Rightarrow> Inr (m\<lparr>objs := h'\<rparr>, hl'))"
    by (simp split: sum.splits)
  finally show ?case unfolding r .
qed

text \<open>\<^verbatim>\<open>copyTickets\<close> allocates one array and fills it with the pointers of the
  population; it writes nowhere else.\<close>

lemma copy_range_eq:
  assumes "sarray tscp < length (arrays m)" "sarray ts \<noteq> sarray tscp"
    and "\<forall>i\<in>set ixs. i < slen ts \<and> i < slen tscp"
  shows "copy_range m ts tscp ixs =
     Inr (m\<lparr>arrays := (arrays m)[sarray tscp :=
            fold (\<lambda>i a. a[i := arrays m ! sarray ts ! i]) ixs (arrays m ! sarray tscp)]\<rparr>)"
  using assms
proof (induction ixs arbitrary: m)
  case Nil
  then show ?case by simp
next
  case (Cons i ixs)
  let ?v = "arrays m ! sarray ts ! i"
  let ?m1 = "m\<lparr>arrays := (arrays m)[sarray tscp := (arrays m ! sarray tscp)[i := ?v]]\<rparr>"
  from Cons.prems(3) have i: "i < slen ts" "i < slen tscp" by simp_all
  have a: "sarray tscp < length (arrays ?m1)" using Cons.prems(1) by simp
  have b: "\<forall>i\<in>set ixs. i < slen ts \<and> i < slen tscp" using Cons.prems(3) by simp
  have s1: "arrays ?m1 ! sarray ts = arrays m ! sarray ts"
    using Cons.prems(2) by simp
  have s2: "arrays ?m1 ! sarray tscp = (arrays m ! sarray tscp)[i := ?v]"
    using Cons.prems(1) by simp
  have "copy_range m ts tscp (i # ixs) = copy_range ?m1 ts tscp ixs"
    using i by (simp add: index_mem_def store_mem_def pbind_def)
  also note Cons.IH [OF a Cons.prems(2) b]
  finally show ?case unfolding s1 s2 by simp
qed

lemma fold_fill:
  assumes "n \<le> length a" "n \<le> length xs"
  shows "fold (\<lambda>i a. a[i := xs ! i]) [0..<n] a = take n xs @ drop n a"
  using assms
proof (induction n)
  case 0
  then show ?case by simp
next
  case (Suc n)
  then have n: "n < length a" "n < length xs" by simp_all
  have "fold (\<lambda>i a. a[i := xs ! i]) [0..<Suc n] a = (take n xs @ drop n a)[n := xs ! n]"
    using Suc by simp
  also have "\<dots> = take n xs @ (drop n a)[0 := xs ! n]"
    using n by (simp add: list_update_append)
  also have "(drop n a)[0 := xs ! n] = xs ! n # drop (Suc n) a"
    using n by (simp add: Cons_nth_drop_Suc [symmetric])
  finally show ?case using n by (simp add: take_Suc_conv_app_nth)
qed

lemma copyTickets_mem_eq:
  assumes "pop_at m (mem_tickets sim) ps"
  shows "copyTickets_mem m sim =
     Inr (m\<lparr>arrays := arrays m @ [map Some ps]\<rparr>,
          \<lparr>sarray = length (arrays m), slen = length ps\<rparr>)"
proof -
  let ?s = "mem_tickets sim"
  let ?n = "length ps"
  let ?t = "\<lparr>sarray = length (arrays m), slen = ?n\<rparr>"
  let ?m1 = "m\<lparr>arrays := arrays m @ [replicate ?n None]\<rparr>"
  from assms have a: "sarray ?s < length (arrays m)" "slen ?s = ?n"
    "take ?n (arrays m ! sarray ?s) = map Some ps"
    "make_ok (int (length (arrays m ! sarray ?s)))"
    by (auto simp add: pop_at_def)
  have le: "?n \<le> length (arrays m ! sarray ?s)"
    using arg_cong [OF a(3), of length] by simp
  have mk: "make_ok (int ?n)" using a(4) le by (simp add: make_ok_def)
  have m1: "make_ptrs m (int (slen ?s)) = Inr (?m1, ?t)"
    using mk by (simp add: make_ptrs_def a(2))
  have c: "copy_range ?m1 ?s ?t [0..<?n] =
     Inr (?m1\<lparr>arrays := (arrays ?m1)[sarray ?t :=
            fold (\<lambda>i a. a[i := arrays ?m1 ! sarray ?s ! i]) [0..<?n] (arrays ?m1 ! sarray ?t)]\<rparr>)"
    using a(1,2) by (intro copy_range_eq) simp_all
  have e: "(arrays m @ [replicate ?n None]) ! sarray ?s = arrays m ! sarray ?s"
    using a(1) by (simp add: nth_append)
  have f: "fold (\<lambda>i a. a[i := (arrays m @ [replicate ?n None]) ! sarray ?s ! i]) [0..<?n]
      (replicate ?n None) = map Some ps"
    unfolding e using le fold_fill [of ?n "replicate ?n None" "arrays m ! sarray ?s"]
    by (simp add: a(3))
  show ?thesis
    unfolding copyTickets_mem_def m1 by (simp add: pbind_def a(2) c f)
qed

text \<open>The sort in place gives the array the order that the sort of the pointers
  gives, and changes nothing else.\<close>

lemma swap_map: "i < length xs \<Longrightarrow> j < length xs \<Longrightarrow> swap (map f xs) i j = map f (swap xs i j)"
  by (simp add: swap_def map_update)

lemma with_array_again:
  "with_array (with_array m a xs) a ys = with_array m a ys"
  "a < length (arrays m) \<Longrightarrow> arrays (with_array m a xs) ! a = map Some xs"
  "objs (with_array m a xs) = objs m"
  by (simp_all add: with_array_def)

lemma insertion_inner_mem_sim:
  assumes agree: "\<forall>ys i j. mset ys = mset xs0 \<and> i < length ys \<and> j < length ys
                  \<longrightarrow> lssm (with_array m a ys) i j = lss ys i j"
    and total: "\<forall>ys i j. mset ys = mset xs0 \<and> i < length ys \<and> j < length ys
                  \<longrightarrow> (\<exists>b. lss ys i j = Inr b)"
    and "sarray s = a" "a < length (arrays m)" "mset xs = mset xs0" "j < length xs"
  shows "\<exists>ys. insertion_inner lss xs j = Inr ys \<and> mset ys = mset xs0
     \<and> insertion_inner_mem lssm (with_array m a xs) s j = Inr (with_array m a ys)"
  using assms(5,6)
proof (induction j arbitrary: xs)
  case 0
  then show ?case by simp
next
  case (Suc j)
  from total Suc.prems obtain b where b: "lss xs (Suc j) j = Inr b" by force
  from agree Suc.prems have bm: "lssm (with_array m a xs) (Suc j) j = lss xs (Suc j) j"
    by force
  show ?case
  proof (cases b)
    case True
    have ms: "mset (swap xs (Suc j) j) = mset xs0"
      using Suc.prems by (simp add: mset_swap_list)
    have l: "j < length (swap xs (Suc j) j)" using Suc.prems by (simp add: swap_def)
    have sw: "swap_mem (with_array m a xs) s (Suc j) j = with_array m a (swap xs (Suc j) j)"
      using Suc.prems assms(3,4) by (simp add: swap_mem_def with_array_def swap_map)
    from Suc.IH [OF ms l] b bm True show ?thesis by (simp add: pbind_def sw)
  next
    case False
    with b bm Suc.prems show ?thesis by (simp add: pbind_def)
  qed
qed

lemma insertion_outer_mem_sim:
  assumes "\<forall>ys i j. mset ys = mset xs0 \<and> i < length ys \<and> j < length ys
                  \<longrightarrow> lssm (with_array m a ys) i j = lss ys i j"
    and "\<forall>ys i j. mset ys = mset xs0 \<and> i < length ys \<and> j < length ys
                  \<longrightarrow> (\<exists>b. lss ys i j = Inr b)"
    and "sarray s = a" "a < length (arrays m)" "mset xs = mset xs0" "b \<le> length xs"
  shows "\<exists>ys. insertion_outer lss xs i b = Inr ys \<and> mset ys = mset xs0
     \<and> insertion_outer_mem lssm (with_array m a xs) s i b = Inr (with_array m a ys)"
  using assms
proof (induction lss xs i b rule: insertion_outer.induct)
  case (1 lss xs i b)
  show ?case
  proof (cases "i < b")
    case True
    with "1.prems" have "i < length xs" by simp
    from insertion_inner_mem_sim [OF "1.prems"(1,2,3,4,5) this]
    obtain ys where ys: "insertion_inner lss xs i = Inr ys" "mset ys = mset xs0"
      "insertion_inner_mem lssm (with_array m a xs) s i = Inr (with_array m a ys)" by blast
    have "length ys = length xs" using ys(2) "1.prems"(5) by (metis mset_eq_length)
    with "1.IH" [OF True "1.prems"(1,2,3,4) ys(2)] "1.prems"(6) ys True show ?thesis
      by (subst insertion_outer_mem.simps) (simp add: pbind_def)
  next
    case False
    with "1.prems" show ?thesis by (subst insertion_outer_mem.simps) simp
  qed
qed

lemma sort_Slice_mem_sim:
  assumes "\<forall>ys i j. mset ys = mset xs \<and> i < length ys \<and> j < length ys
                  \<longrightarrow> lssm (with_array m a ys) i j = lss ys i j"
    and "\<forall>ys i j. mset ys = mset xs \<and> i < length ys \<and> j < length ys
                  \<longrightarrow> (\<exists>b. lss ys i j = Inr b)"
    and "sarray s = a" "a < length (arrays m)" "slen s = length xs"
  shows "\<exists>ys. sort_Slice xs lss = Inr ys \<and> mset ys = mset xs
     \<and> sort_Slice_mem (with_array m a xs) s lssm = Inr (with_array m a ys)"
  unfolding sort_Slice_def sort_Slice_mem_def assms(5)
  by (rule insertion_outer_mem_sim [OF assms(1,2,3,4)]) simp_all

text \<open>On the sorted copy the comparisons in the memory are the comparisons on the
  pointers.\<close>

lemma tickets_abs_sim [simp]: "tickets (abs_sim sim ps) = ps"
  by (simp add: abs_sim_def)

lemma pbind_simps: "pbind (Inr x) f = f x" "pbind (Inl e) f = Inl e"
  by (simp_all add: pbind_def)

lemma go_quo_int64_eq:
  assumes "int64 a" "0 < b"
  shows "go_quo_int64 a b = go_quo a b"
proof -
  let ?q = "\<bar>a\<bar> div b"
  have q: "0 \<le> ?q" using assms(2) by (simp add: pos_imp_zdiv_nonneg_iff)
  have le: "?q \<le> \<bar>a\<bar>" by (cases "a = 0") (simp_all add: int_div_le_self)
  have "int64 (sgn a * ?q)"
  proof (cases "a < 0")
    case True
    then have "sgn a * ?q = - ?q" "\<bar>a\<bar> = - a" by simp_all
    with q le assms(1) show ?thesis by (simp add: int64_def)
  next
    case False
    then have "sgn a * ?q = ?q \<or> sgn a * ?q = 0" "\<bar>a\<bar> = a" by (simp_all add: sgn_if)
    with q le assms(1) show ?thesis by (auto simp add: int64_def)
  qed
  then have "wrap64 (sgn a * ?q) = sgn a * ?q" by (rule wrap64_id)
  then show ?thesis using assms(2) by (simp add: go_quo_int64_def go_quo_def)
qed

lemma index_mem_with_array:
  assumes "sarray s = a" "a < length (arrays m)" "slen s = length ys" "i < length ys"
  shows "index_mem (with_array m a ys) s (int i) = Inr (Some (ys ! i))"
  using assms by (simp add: index_mem_def with_array_def)

lemma less_mem_agree:
  assumes ok: "pop_ok (objs m) sim0 day" and i64: "\<forall>p\<in>set (tickets sim0). int64_ticket (objs m ! p) day"
    and ys: "mset ys = mset (tickets sim0)" "i < length ys" "j < length ys"
    and s: "sarray s = a" "a < length (arrays m)" "slen s = length ys"
  shows "less_Sjf_mem day s (with_array m a ys) i j = less_Sjf (objs m) day ys i j"
    "less_Osjf_mem day s (with_array m a ys) i j = less_Osjf (objs m) day ys i j"
    "less_Awsjf_mem day s (with_array m a ys) i j = less_Awsjf (objs m) day ys i j"
proof -
  let ?ti = "objs m ! (ys ! i)" and ?tj = "objs m ! (ys ! j)"
  note pi = pop_ok_nth [OF ok ys(1,2)] and pj = pop_ok_nth [OF ok ys(1,3)]
  have xi: "index_mem (with_array m a ys) s (int i) = Inr (Some (ys ! i))"
    by (rule index_mem_with_array [OF s ys(2)])
  have xj: "index_mem (with_array m a ys) s (int j) = Inr (Some (ys ! j))"
    by (rule index_mem_with_array [OF s ys(3)])
  have d: "deref_mem (with_array m a ys) (Some (ys ! i)) = Inr ?ti"
    "deref_mem (with_array m a ys) (Some (ys ! j)) = Inr ?tj"
    using pi(1) pj(1) by (simp_all add: deref_mem_def deref_def with_array_def)
  have e: "deref (objs m) (ys ! i) = Inr ?ti" "deref (objs m) (ys ! j) = Inr ?tj"
    using pi(1) pj(1) by (simp_all add: deref_def)
  show "less_Sjf_mem day s (with_array m a ys) i j = less_Sjf (objs m) day ys i j"
    using ys(2,3)
    by (simp add: less_Sjf_mem_def less_Sjf_def xi xj d e pbind_simps slice_get_nth
        slice_get_day [OF pi(2)] slice_get_day [OF pj(2)])
  show "less_Osjf_mem day s (with_array m a ys) i j = less_Osjf (objs m) day ys i j"
    using ys(2,3)
    by (simp add: less_Osjf_mem_def less_Osjf_def xi xj d e pbind_simps slice_get_nth
        slice_get_day [OF pi(2)] slice_get_day [OF pj(2)])
  have "ys ! i \<in> set ys" "ys ! j \<in> set ys" using ys(2,3) by simp_all
  then have "ys ! i \<in> set (tickets sim0)" "ys ! j \<in> set (tickets sim0)"
    by (simp_all only: mset_eq_setD [OF ys(1)])
  with i64 have ti: "int64_ticket ?ti day" and tj: "int64_ticket ?tj day" by simp_all
  have d1: "int64 (day + 1)"
    using pi(2) ti by (simp add: day_ok_def int64_ticket_def int64_def)
  have w1: "wrap64 (day + 1) = day + 1" using d1 by (rule wrap64_id)
  have wi: "wrap64 (day + 1 - startday ?ti) = day + 1 - startday ?ti"
    using d1 ti pi(3) by (intro wrap64_id) (simp add: int64_def int64_ticket_def)
  have wj: "wrap64 (day + 1 - startday ?tj) = day + 1 - startday ?tj"
    using d1 tj pj(3) by (intro wrap64_id) (simp add: int64_def int64_ticket_def)
  have qi: "go_quo_int64 (rem_at ?ti day) (day + 1 - startday ?ti)
      = go_quo (rem_at ?ti day) (day + 1 - startday ?ti)"
    using ti pi(3) by (intro go_quo_int64_eq) (simp_all add: int64_ticket_def)
  have qj: "go_quo_int64 (rem_at ?tj day) (day + 1 - startday ?tj)
      = go_quo (rem_at ?tj day) (day + 1 - startday ?tj)"
    using tj pj(3) by (intro go_quo_int64_eq) (simp_all add: int64_ticket_def)
  show "less_Awsjf_mem day s (with_array m a ys) i j = less_Awsjf (objs m) day ys i j"
    using ys(2,3)
    by (simp add: less_Awsjf_mem_def less_Awsjf_def xi xj d e pbind_simps slice_get_nth
        slice_get_day [OF pi(2)] slice_get_day [OF pj(2)] w1 wi wj qi qj Let_def)
qed

text \<open>A range loop over a whole slice of the memory that holds the pointers \<open>qs\<close>.\<close>

lemma burn_range_mem_whole:
  assumes "slen s = length qs" "\<forall>i<length qs. arrays m ! sarray s ! i = Some (qs ! i)"
    and "ptrs_ok (objs m) qs day"
    and "\<forall>p\<in>set qs. int64_ticket (objs m ! p) day \<and> startday (objs m ! p) \<le> day"
    and "0 \<le> hl" "hl \<le> workhoursday" "\<forall>x. 0 \<le> x \<longrightarrow> 0 \<le> offer x"
  shows "burn_range_mem m s [0..<slen s] day hl offer =
     (case burn_range (objs m) qs day hl offer of
        Inl e \<Rightarrow> Inl e
      | Inr (h', hl') \<Rightarrow> Inr (m\<lparr>objs := h'\<rparr>, hl'))"
proof -
  have i: "int64 hl" using assms(5,6) by (simp add: int64_def workhoursday_def)
  from burn_range_mem_sim [of 0 qs s m day hl offer] assms i show ?thesis by simp
qed

lemma pop_at_nth:
  assumes "pop_at m s ps"
  shows "slen s = length ps" "\<forall>i<length ps. arrays m ! sarray s ! i = Some (ps ! i)"
proof -
  from assms have a: "slen s = length ps" "take (length ps) (arrays m ! sarray s) = map Some ps"
    by (auto simp add: pop_at_def)
  show "slen s = length ps" by (rule a(1))
  show "\<forall>i<length ps. arrays m ! sarray s ! i = Some (ps ! i)"
  proof (intro allI impI)
    fix i assume i: "i < length ps"
    have "take (length ps) (arrays m ! sarray s) ! i = map Some ps ! i" by (simp only: a(2))
    with i show "arrays m ! sarray s ! i = Some (ps ! i)" by simp
  qed
qed

text \<open>A sorting policy in the memory: the copy is appended to the arrays and sorted; the
  tickets are burnt in the order of the sorted copy.\<close>

lemma sorted_pass_mem:
  assumes at: "pop_at m (mem_tickets sim) ps"
    and ok: "pop_ok (objs m) (abs_sim sim ps) day"
    and i64: "\<forall>p\<in>set ps. int64_ticket (objs m ! p) day"
    and agree: "\<forall>ys i j. mset ys = mset ps \<and> i < length ys \<and> j < length ys \<longrightarrow>
        lssm \<lparr>sarray = length (arrays m), slen = length ps\<rparr>
          (with_array (m\<lparr>arrays := arrays m @ [map Some ps]\<rparr>) (length (arrays m)) ys) i j
        = lss ys i j"
    and total: "\<forall>ys i j. mset ys = mset ps \<and> i < length ys \<and> j < length ys
                  \<longrightarrow> (\<exists>b. lss ys i j = Inr b)"
  obtains h' hl' ys where
    "pbind (sort_Slice (copyTickets (abs_sim sim ps)) lss) (\<lambda>tscp'.
        burn_range (objs m) tscp' day workhoursday (\<lambda>hl. hl)) = Inr (h', hl')"
    "mset ys = mset ps"
    "pbind (copyTickets_mem m sim) (\<lambda>(m1, tscp).
     pbind (sort_Slice_mem m1 tscp (lssm tscp)) (\<lambda>m2.
     burn_range_mem m2 tscp [0..<slen tscp] day workhoursday (\<lambda>hl. hl)))
       = Inr (m\<lparr>objs := h', arrays := arrays m @ [map Some ys]\<rparr>, hl')"
proof -
  let ?a = "length (arrays m)"
  let ?t = "\<lparr>sarray = ?a, slen = length ps\<rparr>"
  let ?m1 = "m\<lparr>arrays := arrays m @ [map Some ps]\<rparr>"
  have w: "with_array ?m1 ?a ys = m\<lparr>arrays := arrays m @ [map Some ys]\<rparr>" for ys
    by (simp add: with_array_def)
  have s: "sarray ?t = ?a" "?a < length (arrays ?m1)" "slen ?t = length ps" by simp_all
  from sort_Slice_mem_sim [OF agree total s] obtain ys where
    ys: "sort_Slice ps lss = Inr ys" "mset ys = mset ps"
    "sort_Slice_mem (with_array ?m1 ?a ps) ?t (lssm ?t) = Inr (with_array ?m1 ?a ys)"
    by blast
  let ?m2 = "m\<lparr>arrays := arrays m @ [map Some ys]\<rparr>"
  have srt: "sort_Slice_mem ?m1 ?t (lssm ?t) = Inr ?m2" using ys(3) by (simp only: w)
  have p: "ptrs_ok (objs m) ps day" using ok by (simp add: pop_ok_def)
  obtain h' hl' where
    e: "burn_range (objs m) ys day workhoursday (\<lambda>hl. hl) = Inr (h', hl')"
    by (rule single_pass [OF p ys(2)])
  have ly: "length ys = length ps" using ys(2) by (metis mset_eq_length)
  have p2: "ptrs_ok (objs ?m2) ys day" using p by (simp add: ptrs_ok_mset [OF ys(2)])
  have c2: "\<forall>p\<in>set ys. int64_ticket (objs ?m2 ! p) day \<and> startday (objs ?m2 ! p) \<le> day"
    using i64 ok by (simp add: mset_eq_setD [OF ys(2)] pop_ok_def)
  have br: "burn_range_mem ?m2 ?t [0..<slen ?t] day workhoursday (\<lambda>hl. hl) =
     (case burn_range (objs ?m2) ys day workhoursday (\<lambda>hl. hl) of
        Inl e \<Rightarrow> Inl e
      | Inr (h', hl') \<Rightarrow> Inr (?m2\<lparr>objs := h'\<rparr>, hl'))"
    by (rule burn_range_mem_whole [OF _ _ p2 c2]) (simp_all add: ly workhoursday_def)
  show thesis
  proof (rule that [OF _ ys(2)])
    show "pbind (sort_Slice (copyTickets (abs_sim sim ps)) lss) (\<lambda>tscp'.
        burn_range (objs m) tscp' day workhoursday (\<lambda>hl. hl)) = Inr (h', hl')"
      by (simp add: copyTickets_eq ys(1) pbind_def e)
    show "pbind (copyTickets_mem m sim) (\<lambda>(m1, tscp).
       pbind (sort_Slice_mem m1 tscp (lssm tscp)) (\<lambda>m2.
       burn_range_mem m2 tscp [0..<slen tscp] day workhoursday (\<lambda>hl. hl)))
         = Inr (m\<lparr>objs := h', arrays := arrays m @ [map Some ys]\<rparr>, hl')"
      using br by (simp add: copyTickets_mem_eq [OF at] pbind_def srt e)
  qed
qed

text \<open>
  Every policy in the memory does to the ticket objects what the policy on the pointers
  does, returns the same capacity, and leaves every array as it is; the sorting policies
  append one array, the sorted copy of the population.
\<close>

lemma policy_mem_refines:
  assumes at: "pop_at m (mem_tickets sim) ps"
    and ok: "pop_ok (objs m) (abs_sim sim ps) day"
    and i64: "\<forall>p\<in>set ps. int64_ticket (objs m ! p) day"
  obtains h' hl' cp where
    "call_burndownaday f (objs m) (abs_sim sim ps) day = Inr (h', hl')"
    "call_burndownaday_mem f m sim day = Inr (m\<lparr>objs := h', arrays := arrays m @ cp\<rparr>, hl')"
    "cp = [] \<or> (\<exists>ys. cp = [map Some ys] \<and> mset ys = mset ps)"
proof -
  note ret = that
  let ?h = "objs m" and ?s = "mem_tickets sim"
  have p: "ptrs_ok ?h ps day" and sd: "\<forall>p\<in>set ps. startday (?h ! p) \<le> day"
    using ok by (simp_all add: pop_ok_def)
  have c: "\<forall>p\<in>set ps. int64_ticket (?h ! p) day \<and> startday (?h ! p) \<le> day"
    using i64 sd by simp
  note n = pop_at_nth [OF at]
  have w: "0 \<le> workhoursday" "workhoursday \<le> workhoursday" by (simp_all add: workhoursday_def)
  have sorting: thesis
    if v: "call_burndownaday f ?h (abs_sim sim ps) day =
        pbind (sort_Slice (copyTickets (abs_sim sim ps)) lss) (\<lambda>tscp'.
          burn_range ?h tscp' day workhoursday (\<lambda>hl. hl))"
      and u: "call_burndownaday_mem f m sim day =
        pbind (copyTickets_mem m sim) (\<lambda>(m1, tscp).
        pbind (sort_Slice_mem m1 tscp (lssm tscp)) (\<lambda>m2.
        burn_range_mem m2 tscp [0..<slen tscp] day workhoursday (\<lambda>hl. hl)))"
      and agree: "\<forall>ys i j. mset ys = mset ps \<and> i < length ys \<and> j < length ys \<longrightarrow>
        lssm \<lparr>sarray = length (arrays m), slen = length ps\<rparr>
          (with_array (m\<lparr>arrays := arrays m @ [map Some ps]\<rparr>) (length (arrays m)) ys) i j
        = lss ys i j"
      and total: "\<forall>ys i j. mset ys = mset ps \<and> i < length ys \<and> j < length ys
                  \<longrightarrow> (\<exists>b. lss ys i j = Inr b)"
    for lss lssm
  proof -
    obtain h' hl' ys where
      r: "pbind (sort_Slice (copyTickets (abs_sim sim ps)) lss) (\<lambda>tscp'.
          burn_range ?h tscp' day workhoursday (\<lambda>hl. hl)) = Inr (h', hl')"
      "mset ys = mset ps"
      "pbind (copyTickets_mem m sim) (\<lambda>(m1, tscp).
       pbind (sort_Slice_mem m1 tscp (lssm tscp)) (\<lambda>m2.
       burn_range_mem m2 tscp [0..<slen tscp] day workhoursday (\<lambda>hl. hl)))
         = Inr (m\<lparr>objs := h', arrays := arrays m @ [map Some ys]\<rparr>, hl')"
      by (rule sorted_pass_mem [where lss = lss and lssm = lssm, OF at ok i64 agree total])
    show thesis
      by (rule ret [of h' hl' "[map Some ys]"]) (simp_all add: v u r)
  qed
  let ?m1 = "m\<lparr>arrays := arrays m @ [map Some ps]\<rparr>"
  let ?a = "length (arrays m)"
  let ?t = "\<lparr>sarray = ?a, slen = length ps\<rparr>"
  have ok1: "pop_ok (objs ?m1) (abs_sim sim ps) day" using ok by simp
  have i1: "\<forall>p\<in>set (tickets (abs_sim sim ps)). int64_ticket (objs ?m1 ! p) day"
    using i64 by simp
  have o1: "objs ?m1 = ?h" by simp
  have ag: "less_Sjf_mem day ?t (with_array ?m1 ?a ys) i j = less_Sjf ?h day ys i j"
    "less_Osjf_mem day ?t (with_array ?m1 ?a ys) i j = less_Osjf ?h day ys i j"
    "less_Awsjf_mem day ?t (with_array ?m1 ?a ys) i j = less_Awsjf ?h day ys i j"
    if "mset ys = mset ps \<and> i < length ys \<and> j < length ys" for ys i j
  proof -
    from that have y: "mset ys = mset (tickets (abs_sim sim ps))" "i < length ys" "j < length ys"
      by simp_all
    have l: "length ys = length ps" using that by (metis mset_eq_length)
    have s: "sarray ?t = ?a" "?a < length (arrays ?m1)" "slen ?t = length ys"
      by (simp_all add: l)
    note r = less_mem_agree [OF ok1 i1 y s]
    show "less_Sjf_mem day ?t (with_array ?m1 ?a ys) i j = less_Sjf ?h day ys i j"
      using r(1) by (simp only: o1)
    show "less_Osjf_mem day ?t (with_array ?m1 ?a ys) i j = less_Osjf ?h day ys i j"
      using r(2) by (simp only: o1)
    show "less_Awsjf_mem day ?t (with_array ?m1 ?a ys) i j = less_Awsjf ?h day ys i j"
      using r(3) by (simp only: o1)
  qed
  note so = less_Sjf_ok [OF ok, unfolded tickets_abs_sim]
    less_Osjf_ok [OF ok, unfolded tickets_abs_sim]
    less_Awsjf_ok [OF ok, unfolded tickets_abs_sim]
  show thesis
  proof (cases f)
    case BurndownMaxWip
    obtain h1 hl1 where
      a: "burn_range ?h ps day workhoursday (\<lambda>_. 2) = Inr (h1, hl1)"
      "day_effect ?h h1 ps day"
      "\<forall>p\<in>set ps. spent ?h h1 day p \<le> 2"
      "hours_spent ?h h1 day ps = workhoursday - hl1" "0 \<le> hl1" "hl1 \<le> workhoursday"
      by (rule maxwip_first_pass [OF p])
    have f1: "burn_range_mem m ?s [0..<slen ?s] day workhoursday (\<lambda>_. 2) = Inr (m\<lparr>objs := h1\<rparr>, hl1)"
      using burn_range_mem_whole [OF n p c w, of "\<lambda>_. 2"] by (simp add: a(1))
    show ?thesis
    proof (cases "0 < hl1")
      case False
      show ?thesis
        by (rule ret [of h1 hl1 "[]"])
          (use False a(1) f1 in \<open>simp_all add: BurndownMaxWip burndownMaxWip_unfold
            burndownMaxWip_mem_def pbind_def\<close>)
    next
      case True
      obtain h2 hl2 where
        b: "burn_range h1 ps day hl1 (\<lambda>hl. hl) = Inr (h2, hl2)"
        by (rule maxwip_second_pass [OF p a(2,5)])
      have d: "0 \<le> day" if "q \<in> set ps" for q
        using p that by (auto simp add: ptrs_ok_def day_ok_def)
      have b1: "h1 ! q = burnt (?h ! q) day (spent ?h h1 day q)" if "q \<in> set ps" for q
        using a(2) that by (simp add: day_effect_def)
      let ?m1 = "m\<lparr>objs := h1\<rparr>"
      have p1: "ptrs_ok (objs ?m1) ps day" using day_effect_ptrs_ok [OF p a(2)] by simp
      have c1: "\<forall>q\<in>set ps. int64_ticket (objs ?m1 ! q) day \<and> startday (objs ?m1 ! q) \<le> day"
        using c b1 d by (simp add: int64_ticket_burnt)
      have n1: "slen ?s = length ps" "\<forall>i<length ps. arrays ?m1 ! sarray ?s ! i = Some (ps ! i)"
        using n by simp_all
      have f2: "burn_range_mem ?m1 ?s [0..<slen ?s] day hl1 (\<lambda>hl. hl) = Inr (m\<lparr>objs := h2\<rparr>, hl2)"
        using burn_range_mem_whole [OF n1 p1 c1 a(5,6), of "\<lambda>hl. hl"] by (simp add: b)
      show ?thesis
        by (rule ret [of h2 hl2 "[]"])
          (use True a(1) f1 b f2 in \<open>simp_all add: BurndownMaxWip burndownMaxWip_unfold
            burndownMaxWip_mem_def pbind_def\<close>)
    qed
  next
    case BurndownOldestFirst
    obtain h' hl' where
      e: "burn_range ?h ps day workhoursday (\<lambda>hl. hl) = Inr (h', hl')"
      by (rule single_pass [OF p refl])
    have f1: "burn_range_mem m ?s [0..<slen ?s] day workhoursday (\<lambda>hl. hl) = Inr (m\<lparr>objs := h'\<rparr>, hl')"
      using burn_range_mem_whole [OF n p c w, of "\<lambda>hl. hl"] by (simp add: e)
    show ?thesis
      by (rule ret [of h' hl' "[]"])
        (use e f1 in \<open>simp_all add: BurndownOldestFirst burndownOldestFirst_def
          burndownOldestFirst_mem_def\<close>)
  next
    case BurndownSjf
    show ?thesis
    proof (rule sorting [of "less_Sjf ?h day" "less_Sjf_mem day"])
      show "\<forall>ys i j. mset ys = mset ps \<and> i < length ys \<and> j < length ys
                  \<longrightarrow> (\<exists>b. less_Sjf ?h day ys i j = Inr b)"
        using so(1) by blast
      show "\<forall>ys i j. mset ys = mset ps \<and> i < length ys \<and> j < length ys \<longrightarrow>
        less_Sjf_mem day \<lparr>sarray = length (arrays m), slen = length ps\<rparr>
          (with_array ?m1 (length (arrays m)) ys) i j = less_Sjf ?h day ys i j"
        by (intro allI impI) (rule ag(1))
    qed (simp_all add: BurndownSjf burndownSjf_def burndownSjf_mem_def)
  next
    case BurndownOsjf
    show ?thesis
    proof (rule sorting [of "less_Osjf ?h day" "less_Osjf_mem day"])
      show "\<forall>ys i j. mset ys = mset ps \<and> i < length ys \<and> j < length ys
                  \<longrightarrow> (\<exists>b. less_Osjf ?h day ys i j = Inr b)"
        using so(2) by blast
      show "\<forall>ys i j. mset ys = mset ps \<and> i < length ys \<and> j < length ys \<longrightarrow>
        less_Osjf_mem day \<lparr>sarray = length (arrays m), slen = length ps\<rparr>
          (with_array ?m1 (length (arrays m)) ys) i j = less_Osjf ?h day ys i j"
        by (intro allI impI) (rule ag(2))
    qed (simp_all add: BurndownOsjf burndownOsjf_def burndownOsjf_mem_def)
  next
    case BurndownAwsjf
    show ?thesis
    proof (rule sorting [of "less_Awsjf ?h day" "less_Awsjf_mem day"])
      show "\<forall>ys i j. mset ys = mset ps \<and> i < length ys \<and> j < length ys
                  \<longrightarrow> (\<exists>b. less_Awsjf ?h day ys i j = Inr b)"
        using so(3) by blast
      show "\<forall>ys i j. mset ys = mset ps \<and> i < length ys \<and> j < length ys \<longrightarrow>
        less_Awsjf_mem day \<lparr>sarray = length (arrays m), slen = length ps\<rparr>
          (with_array ?m1 (length (arrays m)) ys) i j = less_Awsjf ?h day ys i j"
        by (intro allI impI) (rule ag(3))
    qed (simp_all add: BurndownAwsjf burndownAwsjf_def burndownAwsjf_mem_def)
  qed
qed

section \<open>Facts about the driver\<close>

lemma leadtime_burnt:
  "leadtime (burnt t day s) = (if 0 < rem_at t day then day + 1 - startday t else leadtime t)"
  by (simp add: burnt_def)

lemma endday_burnt:
  "endday (burnt t day s) = (if 0 < rem_at t day then day else endday t)"
  by (simp add: burnt_def)

lemma antimono_chain:
  fixes f :: "int \<Rightarrow> int"
  assumes step: "\<forall>k. a \<le> k \<and> k < b \<longrightarrow> f (k + 1) \<le> f k"
    and "a \<le> i" "i \<le> j" "j \<le> b"
  shows "f j \<le> f i"
  using assms(3,4)
proof (induction j rule: int_ge_induct)
  case base
  then show ?case by simp
next
  case (step j)
  then have "f (j + 1) \<le> f j" using assms(1,2) by simp
  with step show ?case by simp
qed

lemma tk_inv_burnt:
  assumes inv: "tk_inv days m t" and m: "m + 1 < days"
    and s: "0 \<le> s" "s \<le> max 0 (rem_at t m)"
  shows "tk_inv days (m + 1) (burnt t m s)"
proof -
  let ?t = "burnt t m s"
  let ?s = "startday t"
  from inv have len: "int (length (remaining t)) = days" and s0: "0 \<le> ?s" and sm: "?s \<le> m"
    and eff: "rem_at t ?s = effort t"
    and mono: "\<forall>k. ?s \<le> k \<and> k < m \<longrightarrow> rem_at t (k + 1) \<le> rem_at t k"
    and nonneg: "0 \<le> effort t \<longrightarrow> (\<forall>k. ?s \<le> k \<and> k \<le> m \<longrightarrow> 0 \<le> rem_at t k)"
    and lt: "0 \<le> leadtime t" "?s + leadtime t \<le> m"
    and pos: "\<forall>k. ?s \<le> k \<and> k < ?s + leadtime t \<longrightarrow> 0 < rem_at t k"
    and zero: "\<forall>k. ?s + leadtime t \<le> k \<and> k < m \<longrightarrow> rem_at t k \<le> 0"
    and ed: "endday t = (if 0 < leadtime t then ?s + leadtime t - 1 else 0)"
    by (simp_all add: tk_inv_def)
  have m0: "0 \<le> m" using s0 sm by simp
  have dk: "day_ok t m" using len m m0 by (simp add: day_ok_def)
  have next_slot: "rem_at ?t (m + 1) = rem_at t m - s" by (rule rem_at_burnt_next [OF dk])
  have other: "rem_at ?t k = rem_at t k" if "0 \<le> k" "k \<le> m" for k
    using that m0 by (simp add: rem_at_burnt_other)
  have chain: "rem_at t j \<le> rem_at t i" if "?s \<le> i" "i \<le> j" "j \<le> m" for i j
    by (rule antimono_chain [OF mono that])
  have c1: "int (length (remaining ?t)) = days" using len by simp
  have c2: "rem_at ?t (startday ?t) = effort ?t" using other [of ?s] s0 sm eff by simp
  have c3: "\<forall>k. startday ?t \<le> k \<and> k < m + 1 \<longrightarrow> rem_at ?t (k + 1) \<le> rem_at ?t k"
  proof (intro allI impI)
    fix k assume k: "startday ?t \<le> k \<and> k < m + 1"
    show "rem_at ?t (k + 1) \<le> rem_at ?t k"
    proof (cases "k = m")
      case True
      then show ?thesis using next_slot other [of m] m0 s by simp
    next
      case False
      with k have "k < m" "?s \<le> k" by simp_all
      then show ?thesis using other [of k] other [of "k + 1"] mono s0 by simp
    qed
  qed
  have c4: "0 \<le> effort ?t \<longrightarrow> (\<forall>k. startday ?t \<le> k \<and> k \<le> m + 1 \<longrightarrow> 0 \<le> rem_at ?t k)"
  proof (intro allI impI)
    fix k assume e: "0 \<le> effort ?t" and k: "startday ?t \<le> k \<and> k \<le> m + 1"
    from e nonneg have nn: "\<forall>k. ?s \<le> k \<and> k \<le> m \<longrightarrow> 0 \<le> rem_at t k" by simp
    show "0 \<le> rem_at ?t k"
    proof (cases "k = m + 1")
      case True
      have "0 \<le> rem_at t m" using nn sm by simp
      then show ?thesis using True next_slot s by simp
    next
      case False
      with k have "k \<le> m" "?s \<le> k" by simp_all
      then show ?thesis using other [of k] nn s0 by simp
    qed
  qed
  show ?thesis
  proof (cases "0 < rem_at t m")
    case True
    have l: "leadtime ?t = m + 1 - ?s" "endday ?t = m"
      using True by (simp_all add: leadtime_burnt endday_burnt)
    have c5: "\<forall>k. startday ?t \<le> k \<and> k < startday ?t + leadtime ?t \<longrightarrow> 0 < rem_at ?t k"
    proof (intro allI impI)
      fix k assume k: "startday ?t \<le> k \<and> k < startday ?t + leadtime ?t"
      then have kk: "?s \<le> k" "k \<le> m" using l by simp_all
      from chain [OF kk(1,2)] True have "0 < rem_at t k" by simp
      then show "0 < rem_at ?t k" using other [of k] kk s0 by simp
    qed
    show ?thesis
      unfolding tk_inv_def using c1 c2 c3 c4 c5 l s0 sm m by simp
  next
    case False
    have l: "leadtime ?t = leadtime t" "endday ?t = endday t"
      using False by (simp_all add: leadtime_burnt endday_burnt)
    have c5: "\<forall>k. startday ?t \<le> k \<and> k < startday ?t + leadtime ?t \<longrightarrow> 0 < rem_at ?t k"
    proof (intro allI impI)
      fix k assume k: "startday ?t \<le> k \<and> k < startday ?t + leadtime ?t"
      then have kk: "?s \<le> k" "k < ?s + leadtime t" using l by simp_all
      then have "0 < rem_at t k" using pos by simp
      then show "0 < rem_at ?t k" using other [of k] kk lt s0 by simp
    qed
    have c6: "\<forall>k. startday ?t + leadtime ?t \<le> k \<and> k < m + 1 \<longrightarrow> rem_at ?t k \<le> 0"
    proof (intro allI impI)
      fix k assume k: "startday ?t + leadtime ?t \<le> k \<and> k < m + 1"
      then have kk: "?s + leadtime t \<le> k" "k \<le> m" using l by simp_all
      have "rem_at t k \<le> 0"
      proof (cases "k = m")
        case True
        with False show ?thesis by simp
      next
        case False
        with kk zero show ?thesis by simp
      qed
      then show "rem_at ?t k \<le> 0" using other [of k] kk lt s0 by simp
    qed
    show ?thesis
      unfolding tk_inv_def using c1 c2 c3 c4 c5 c6 l s0 sm m lt ed by simp
  qed
qed

lemma NewTicket_eq:
  assumes "0 \<le> d" "d < days" "make_ok days"
  shows "NewTicket h d e days = Inr (h @ [new_ticket d days e], length h)"
  using assms by (simp add: NewTicket_def slice_set_def pbind_def new_ticket_def)

lemma createTickets_loop_eq:
  assumes "0 \<le> d" "d < days" "make_ok days"
  shows "createTickets_loop h d days effs tks se =
     Inr (h @ map (new_ticket d days) effs, tks @ [length h..<length h + length effs],
          foldl (\<lambda>sm e. wrap64 (sm + e)) se effs)"
proof (induction effs arbitrary: h tks se)
  case Nil
  then show ?case by simp
next
  case (Cons e effs)
  let ?h1 = "h @ [new_ticket d days e]"
  have u: "[length h..<length h + length (e # effs)]
      = length h # [length ?h1..<length ?h1 + length effs]"
    using upt_shift [of "length h"] by simp
  have "createTickets_loop h d days (e # effs) tks se
      = createTickets_loop ?h1 d days effs (tks @ [length h]) (wrap64 (se + e))"
    by (simp add: NewTicket_eq [OF assms] pbind_def)
  also have "\<dots> = Inr (?h1 @ map (new_ticket d days) effs,
      (tks @ [length h]) @ [length ?h1..<length ?h1 + length effs],
      foldl (\<lambda>sm e. wrap64 (sm + e)) (wrap64 (se + e)) effs)"
    by (rule Cons.IH)
  finally show ?case unfolding u by simp
qed

text \<open>The day's tickets are created unless \<^verbatim>\<open>make\<close> refuses the slice of pointers or, for
  the first ticket, the trajectory.\<close>

lemma createTicketsForDay_eq:
  assumes "0 \<le> d" "d < days"
  shows "createTicketsForDay h d days effs =
     (if make_ok (int (length effs)) \<and> (effs = [] \<or> make_ok days)
      then Inr (h @ map (new_ticket d days) effs, [length h..<length h + length effs],
                foldl (\<lambda>sm e. wrap64 (sm + e)) 0 effs)
      else Inl MakeSliceRange)"
proof (cases "make_ok days")
  case True
  then show ?thesis
    by (simp add: createTicketsForDay_def createTickets_loop_eq [OF assms True])
next
  case False
  then show ?thesis
    by (cases effs) (simp_all add: createTicketsForDay_def NewTicket_def pbind_def)
qed

lemma Clone_eq:
  assumes "p < length h"
  shows "Clone h p = Inr (h @ [clone_of (h ! p)], length h)"
  using assms by (simp add: Clone_def deref_def pbind_def clone_of_def)

lemma addTickets_loop_eq:
  assumes "\<forall>t\<in>set ts. t < length h"
  shows "addTickets_loop h sts ts =
     Inr (h @ map (\<lambda>p. clone_of (h ! p)) ts, sts @ [length h..<length h + length ts])"
  using assms
proof (induction ts arbitrary: h sts)
  case Nil
  then show ?case by simp
next
  case (Cons t ts)
  let ?h1 = "h @ [clone_of (h ! t)]"
  have v: "\<forall>t\<in>set ts. t < length ?h1" using Cons.prems by auto
  have m: "map (\<lambda>p. clone_of (?h1 ! p)) ts = map (\<lambda>p. clone_of (h ! p)) ts"
    using Cons.prems by (simp add: nth_append)
  have u: "[length h..<length h + length (t # ts)]
      = length h # [length ?h1..<length ?h1 + length ts]"
    using upt_shift [of "length h"] by simp
  have "addTickets_loop h sts (t # ts) = addTickets_loop ?h1 (sts @ [length h]) ts"
    using Cons.prems by (simp add: Clone_eq pbind_def)
  also have "\<dots> = Inr (?h1 @ map (\<lambda>p. clone_of (?h1 ! p)) ts,
      (sts @ [length h]) @ [length ?h1..<length ?h1 + length ts])"
    by (rule Cons.IH [OF v])
  finally show ?case unfolding u m by simp
qed

lemma addTickets_eq:
  assumes "\<forall>t\<in>set ts. t < length h"
  shows "addTickets h s ts =
     Inr (h @ map (\<lambda>p. clone_of (h ! p)) ts,
          s\<lparr>tickets := tickets s @ [length h..<length h + length ts]\<rparr>)"
  by (simp add: addTickets_def addTickets_loop_eq [OF assms] pbind_def)

lemma simulationset_addTickets_eq:
  assumes "\<forall>t\<in>set ts. t < length h"
  shows "simulationset_addTickets h simset ts =
     Inr (add_all h (map (\<lambda>p. clone_of (h ! p)) ts) simset)"
  using assms
proof (induction simset arbitrary: h)
  case Nil
  then show ?case by simp
next
  case (Cons s ss)
  let ?cl = "map (\<lambda>p. clone_of (h ! p)) ts"
  have v: "\<forall>t\<in>set ts. t < length (h @ ?cl)" using Cons.prems by auto
  have m: "map (\<lambda>p. clone_of ((h @ ?cl) ! p)) ts = ?cl"
    using Cons.prems by (simp add: nth_append)
  show ?case
    using Cons.IH [OF v]
    by (simp add: addTickets_eq [OF Cons.prems] pbind_def m split: prod.splits)
qed

lemma all_ptrs_Cons: "all_ptrs (s # ss) = tickets s @ all_ptrs ss"
  by (simp add: all_ptrs_def)

lemma tickets_subset_all_ptrs: "s \<in> set ss \<Longrightarrow> set (tickets s) \<subseteq> set (all_ptrs ss)"
  by (auto simp add: all_ptrs_def)

lemma objects_append_heap:
  assumes "\<forall>p\<in>set (tickets s). p < length h"
  shows "objects (h @ x) s = objects h s"
  using assms by (simp add: objects_def nth_append)

lemma map_nth_middle: "map (\<lambda>p. (h @ cl @ x) ! p) [length h..<length h + length cl] = cl"
  by (rule nth_equalityI) (simp_all add: nth_append)

lemma add_all_props:
  assumes "add_all h cl ss = (h', ss')"
    and "\<forall>p\<in>set (all_ptrs ss). p < length h" "distinct (all_ptrs ss)"
  shows "(\<exists>x. h' = h @ x)
       \<and> map burndownaday ss' = map burndownaday ss
       \<and> (\<forall>p\<in>set (all_ptrs ss'). p < length h')
       \<and> set (all_ptrs ss') \<subseteq> set (all_ptrs ss) \<union> {length h..<length h'}
       \<and> distinct (all_ptrs ss')
       \<and> list_all2 (\<lambda>s s'. objects h' s' = objects h s @ cl) ss ss'
       \<and> list_all2 (\<lambda>s s'. \<exists>a\<ge>length h. tickets s' = tickets s @ [a..<a + length cl]) ss ss'"
  using assms
proof (induction ss arbitrary: h h' ss')
  case Nil
  then show ?case by (simp add: all_ptrs_def)
next
  case (Cons s ss)
  let ?new = "[length h..<length h + length cl]"
  let ?s1 = "s\<lparr>tickets := tickets s @ ?new\<rparr>"
  obtain h1 ss1 where r: "add_all (h @ cl) cl ss = (h1, ss1)" by (cases "add_all (h @ cl) cl ss")
  with Cons.prems(1) have e: "h' = h1" "ss' = ?s1 # ss1" by simp_all
  have ps: "\<forall>p\<in>set (tickets s). p < length h" and pss: "\<forall>p\<in>set (all_ptrs ss). p < length h"
    and ds: "distinct (tickets s)" and dss: "distinct (all_ptrs ss)"
    and dj: "set (tickets s) \<inter> set (all_ptrs ss) = {}"
    using Cons.prems(2,3) by (simp_all add: all_ptrs_Cons)
  have pss': "\<forall>p\<in>set (all_ptrs ss). p < length (h @ cl)" using pss by auto
  from Cons.IH [OF r pss' dss] obtain x where
    ih: "h1 = (h @ cl) @ x" "map burndownaday ss1 = map burndownaday ss"
      "\<forall>p\<in>set (all_ptrs ss1). p < length h1"
      "set (all_ptrs ss1) \<subseteq> set (all_ptrs ss) \<union> {length (h @ cl)..<length h1}"
      "distinct (all_ptrs ss1)"
      "list_all2 (\<lambda>s s'. objects h1 s' = objects (h @ cl) s @ cl) ss ss1"
      "list_all2 (\<lambda>s s'. \<exists>a\<ge>length (h @ cl). tickets s' = tickets s @ [a..<a + length cl])
         ss ss1"
    by blast
  have hx: "h1 = h @ cl @ x" using ih(1) by simp
  have len: "length h1 = length h + length cl + length x" using hx by simp
  have a1: "\<exists>x. h' = h @ x" using e hx by blast
  have a2: "map burndownaday ss' = map burndownaday (s # ss)" using e ih(2) by simp
  have pt: "all_ptrs (?s1 # ss1) = tickets s @ ?new @ all_ptrs ss1" by (simp add: all_ptrs_Cons)
  have a3: "\<forall>p\<in>set (all_ptrs ss'). p < length h'"
    unfolding e pt using ps ih(3) len by auto
  have a4: "set (all_ptrs ss') \<subseteq> set (all_ptrs (s # ss)) \<union> {length h..<length h'}"
    unfolding e pt all_ptrs_Cons using ih(4) len by auto
  have d1: "distinct (tickets s @ ?new)" using ds ps by auto
  have d2: "set (tickets s @ ?new) \<inter> set (all_ptrs ss1) = {}"
  proof -
    have "set (tickets s @ ?new) \<inter> set (all_ptrs ss) = {}" using dj pss by auto
    moreover have "set (tickets s @ ?new) \<inter> {length (h @ cl)..<length h1} = {}"
      using ps by auto
    ultimately show ?thesis using ih(4) by blast
  qed
  have a5: "distinct (all_ptrs ss')"
    unfolding e pt using d1 d2 ih(5) by (simp only: append_assoc [symmetric] distinct_append)
  have o1: "objects h1 ?s1 = objects h s @ cl"
  proof -
    have "map (\<lambda>p. h1 ! p) (tickets s) = map (\<lambda>p. h ! p) (tickets s)"
      using ps hx by (simp add: nth_append)
    moreover have "map (\<lambda>p. h1 ! p) ?new = cl" unfolding hx by (rule map_nth_middle)
    ultimately show ?thesis by (simp add: objects_def)
  qed
  have o2: "list_all2 (\<lambda>s s'. objects h1 s' = objects h s @ cl) ss ss1"
  proof (rule list.rel_mono_strong [OF ih(6)])
    fix a b assume ab: "a \<in> set ss" "objects h1 b = objects (h @ cl) a @ cl"
    have "\<forall>p\<in>set (tickets a). p < length h"
      using pss tickets_subset_all_ptrs [OF ab(1)] by blast
    from objects_append_heap [OF this] ab(2) show "objects h1 b = objects h a @ cl" by simp
  qed
  have a6: "list_all2 (\<lambda>s s'. objects h' s' = objects h s @ cl) (s # ss) ss'"
    unfolding e using o1 o2 by simp
  have t2: "list_all2 (\<lambda>s s'. \<exists>a\<ge>length h. tickets s' = tickets s @ [a..<a + length cl]) ss ss1"
  proof (rule list.rel_mono_strong [OF ih(7)])
    fix a b assume "\<exists>k\<ge>length (h @ cl). tickets b = tickets a @ [k..<k + length cl]"
    then obtain k where "length (h @ cl) \<le> k" "tickets b = tickets a @ [k..<k + length cl]"
      by blast
    then have "length h \<le> k \<and> tickets b = tickets a @ [k..<k + length cl]" by simp
    then show "\<exists>k\<ge>length h. tickets b = tickets a @ [k..<k + length cl]" by blast
  qed
  have t1: "\<exists>a\<ge>length h. tickets ?s1 = tickets s @ [a..<a + length cl]"
    by (rule exI [of _ "length h"]) simp
  have a7: "list_all2 (\<lambda>s s'. \<exists>a\<ge>length h. tickets s' = tickets s @ [a..<a + length cl])
      (s # ss) ss'"
    unfolding e using t1 t2 by simp
  from a1 a2 a3 a4 a5 a6 a7 show ?case by blast
qed

lemma tk_inv_day_ok:
  assumes "tk_inv days d t" "d + 1 < days"
  shows "day_ok t d" "startday t \<le> d"
  using assms by (simp_all add: tk_inv_def day_ok_def)

lemma sims_inv_pop_ok:
  assumes "sims_inv days d h (s # ss)" "d + 1 < days"
  shows "pop_ok h s d"
proof -
  from assms(1) have a: "distinct (tickets s)"
    "\<forall>p\<in>set (tickets s). p < length h \<and> tk_inv days d (h ! p)"
    by (simp_all add: sims_inv_def all_ptrs_Cons)
  have "day_ok (h ! p) d \<and> startday (h ! p) \<le> d" if "p \<in> set (tickets s)" for p
    using tk_inv_day_ok [OF _ assms(2), of "h ! p"] a(2) that by simp
  with a show ?thesis by (simp add: pop_ok_def ptrs_ok_def)
qed

lemma simulationset_burndown_inv:
  assumes "sims_inv days d h ss" "d + 1 < days"
  shows "\<exists>h'. simulationset_burndown h ss d = Inr h' \<and> length h' = length h
     \<and> sims_inv days (d + 1) h' ss
     \<and> (\<forall>q. q \<notin> set (all_ptrs ss) \<longrightarrow> h' ! q = h ! q)
     \<and> (\<forall>q\<in>set (all_ptrs ss). startday (h' ! q) = startday (h ! q)
           \<and> effort (h' ! q) = effort (h ! q))"
  using assms(1)
proof (induction ss arbitrary: h)
  case Nil
  then show ?case by (simp add: sims_inv_def all_ptrs_def)
next
  case (Cons s ss)
  note d = assms(2)
  have pk: "pop_ok h s d" by (rule sims_inv_pop_ok [OF Cons.prems d])
  from Cons.prems have ds: "distinct (tickets s)" and dss: "distinct (all_ptrs ss)"
    and dj: "set (tickets s) \<inter> set (all_ptrs ss) = {}"
    and ivs: "\<forall>p\<in>set (tickets s). p < length h \<and> tk_inv days d (h ! p)"
    and iss: "\<forall>p\<in>set (all_ptrs ss). p < length h \<and> tk_inv days d (h ! p)"
    by (simp_all add: sims_inv_def all_ptrs_Cons)
  obtain h1 hl1 where
    a: "call_burndownaday (burndownaday s) h s d = Inr (h1, hl1)"
    "day_effect h h1 (tickets s) d"
    "hours_spent h h1 d (tickets s) \<le> workhoursday - hl1" "0 \<le> hl1" "hl1 \<le> workhoursday"
    by (rule policy_effect [OF pk])
  from a(2) have l1: "length h1 = length h"
    and fr1: "\<forall>q. q \<notin> set (tickets s) \<longrightarrow> h1 ! q = h ! q"
    and b1: "\<forall>p\<in>set (tickets s). h1 ! p = burnt (h ! p) d (spent h h1 d p)
            \<and> 0 \<le> spent h h1 d p \<and> spent h h1 d p \<le> max 0 (rem_at (h ! p) d)"
    by (simp_all add: day_effect_def)
  have same: "h1 ! p = h ! p" if "p \<in> set (all_ptrs ss)" for p
    using that dj fr1 by blast
  have inv1: "sims_inv days d h1 ss"
    unfolding sims_inv_def using dss iss l1 same by simp
  from Cons.IH [OF inv1] obtain h' where
    ih: "simulationset_burndown h1 ss d = Inr h'" "length h' = length h1"
      "sims_inv days (d + 1) h' ss"
      "\<forall>q. q \<notin> set (all_ptrs ss) \<longrightarrow> h' ! q = h1 ! q"
      "\<forall>q\<in>set (all_ptrs ss). startday (h' ! q) = startday (h1 ! q)
           \<and> effort (h' ! q) = effort (h1 ! q)"
    by blast
  have r: "simulationset_burndown h (s # ss) d = Inr h'"
    using a(1) ih(1) by (simp add: pbind_def)
  have own: "h' ! p = burnt (h ! p) d (spent h h1 d p)" if "p \<in> set (tickets s)" for p
    using that dj ih(4) b1 by (metis disjoint_iff)
  have t1: "p < length h' \<and> tk_inv days (d + 1) (h' ! p)" if "p \<in> set (tickets s)" for p
  proof -
    have "tk_inv days (d + 1) (burnt (h ! p) d (spent h h1 d p))"
      using tk_inv_burnt [OF _ d, of "h ! p" "spent h h1 d p"] ivs b1 that by blast
    then show ?thesis using own [OF that] ivs that ih(2) l1 by simp
  qed
  from ih(3) have t2: "\<forall>p\<in>set (all_ptrs ss). p < length h' \<and> tk_inv days (d + 1) (h' ! p)"
    by (simp add: sims_inv_def)
  have c1: "sims_inv days (d + 1) h' (s # ss)"
    unfolding sims_inv_def all_ptrs_Cons using ds dss dj t1 t2 by auto
  have c2: "\<forall>q. q \<notin> set (all_ptrs (s # ss)) \<longrightarrow> h' ! q = h ! q"
    using ih(4) fr1 by (simp add: all_ptrs_Cons)
  have c3: "\<forall>q\<in>set (all_ptrs (s # ss)). startday (h' ! q) = startday (h ! q)
           \<and> effort (h' ! q) = effort (h ! q)"
  proof
    fix q assume "q \<in> set (all_ptrs (s # ss))"
    then consider "q \<in> set (tickets s)" | "q \<in> set (all_ptrs ss)"
      by (auto simp add: all_ptrs_Cons)
    then show "startday (h' ! q) = startday (h ! q) \<and> effort (h' ! q) = effort (h ! q)"
    proof cases
      case 1
      then show ?thesis using own by simp
    next
      case 2
      then show ?thesis using ih(5) same by simp
    qed
  qed
  from r ih(2) l1 c1 c2 c3 show ?case by simp
qed

lemma clone_of_new_ticket: "clone_of (new_ticket d days e) = new_ticket d days e"
  by (simp add: clone_of_def new_ticket_def)

lemma tk_inv_new_ticket:
  assumes "0 \<le> d" "d < days"
  shows "tk_inv days d (new_ticket d days e)"
proof -
  have k: "k = d" if "d \<le> k \<and> k \<le> d" for k :: int using that by simp
  show ?thesis
    using assms by (auto simp add: tk_inv_def new_ticket_def rem_at_def dest!: k)
qed

lemma keys_new_tickets: "keys (map (new_ticket d days) effs) = map (\<lambda>e. (d, e)) effs"
  by (simp add: keys_def new_ticket_def)

lemma arrival_order_next:
  assumes "0 \<le> d"
  shows "arrival_order arr (d + 1) = arrival_order arr d @ map (\<lambda>e. (d, e)) (arr d)"
  using assms by (simp add: arrival_order_def upto_rec2 [of 0 d])

lemma in_all_ptrs: "p \<in> set (all_ptrs ss) \<longleftrightarrow> (\<exists>s\<in>set ss. p \<in> set (tickets s))"
  by (auto simp add: all_ptrs_def)

lemma map_nth_new: "map (\<lambda>p. (h @ cl) ! p) [length h..<length h + length cl] = cl"
  using map_nth_middle [of h cl "[]"] by simp

text \<open>One day of the loop of \<open>main\<close>.\<close>

lemma day_step:
  assumes inv: "main_inv arr days d h ss" and d: "0 \<le> d" "d < days"
    and c: "createTicketsForDay h d days (arr d) = Inr (h1, tks, eff)"
  shows "\<exists>h2 ss2 h3.
       simulationset_addTickets h1 ss tks = Inr (h2, ss2)
     \<and> (if d < days - 1 then simulationset_burndown h2 ss2 d else Inr h2) = Inr h3
     \<and> main_inv arr days (d + 1) h3 ss2
     \<and> map burndownaday ss2 = map burndownaday ss"
proof -
  let ?nt = "map (new_ticket d days) (arr d)"
  let ?h1 = "h @ ?nt"
  let ?tks = "[length h..<length h + length (arr d)]"
  have md: "min d (days - 1) = d" using d by simp
  from inv have si: "sims_inv days d h ss"
    and ky: "\<forall>s\<in>set ss. keys (objects h s) = arrival_order arr d"
    and so: "\<forall>s\<in>set ss. sorted_wrt (<) (tickets s)"
    by (simp_all add: main_inv_def md)
  from si have dist: "distinct (all_ptrs ss)"
    and val: "\<forall>p\<in>set (all_ptrs ss). p < length h"
    and tki: "\<forall>p\<in>set (all_ptrs ss). tk_inv days d (h ! p)"
    by (simp_all add: sims_inv_def)
  from c have ce: "h1 = ?h1" "tks = ?tks"
    by (simp_all add: createTicketsForDay_eq [OF d] split: if_splits)
  have tv: "\<forall>t\<in>set ?tks. t < length ?h1" by simp
  have cl: "map (\<lambda>p. clone_of (?h1 ! p)) ?tks = ?nt"
  proof -
    have "map (\<lambda>p. clone_of (?h1 ! p)) ?tks = map clone_of (map (\<lambda>p. ?h1 ! p) ?tks)"
      by (simp add: comp_def)
    also have "map (\<lambda>p. ?h1 ! p) ?tks = ?nt" using map_nth_new [of h ?nt] by simp
    finally show ?thesis by (simp add: clone_of_new_ticket)
  qed
  obtain h2 ss2 where aa: "add_all ?h1 ?nt ss = (h2, ss2)" by (cases "add_all ?h1 ?nt ss")
  have a: "simulationset_addTickets ?h1 ss ?tks = Inr (h2, ss2)"
    using simulationset_addTickets_eq [OF tv, of ss] cl aa by simp
  have val1: "\<forall>p\<in>set (all_ptrs ss). p < length ?h1" using val by auto
  from add_all_props [OF aa val1 dist] obtain x where
    p: "h2 = ?h1 @ x" "map burndownaday ss2 = map burndownaday ss"
      "\<forall>p\<in>set (all_ptrs ss2). p < length h2"
      "distinct (all_ptrs ss2)"
      "list_all2 (\<lambda>s s'. objects h2 s' = objects ?h1 s @ ?nt) ss ss2"
      "list_all2 (\<lambda>s s'. \<exists>a\<ge>length ?h1. tickets s' = tickets s @ [a..<a + length ?nt]) ss ss2"
    by blast
  have mid_so: "sorted_wrt (<) (tickets s')" if "s' \<in> set ss2" for s'
  proof -
    from that obtain i where i: "i < length ss2" "ss2 ! i = s'" by (auto simp add: in_set_conv_nth)
    from p(6) i obtain a where l: "i < length ss" and a: "length ?h1 \<le> a"
      "tickets s' = tickets (ss ! i) @ [a..<a + length ?nt]"
      by (auto simp add: list_all2_conv_all_nth)
    have m: "ss ! i \<in> set ss" using l by simp
    have "\<forall>p\<in>set (tickets (ss ! i)). p < length h"
      using val tickets_subset_all_ptrs [OF m] by blast
    with a(1) have "\<forall>p\<in>set (tickets (ss ! i)). \<forall>q\<in>set [a..<a + length ?nt]. p < q" by auto
    with so m show ?thesis unfolding a(2) by (simp add: sorted_wrt_append)
  qed
  have corr: "\<exists>s\<in>set ss. objects h2 s' = objects h s @ ?nt" if "s' \<in> set ss2" for s'
  proof -
    from that obtain i where i: "i < length ss2" "ss2 ! i = s'" by (auto simp add: in_set_conv_nth)
    from p(5) i have l: "i < length ss" and o: "objects h2 s' = objects ?h1 (ss ! i) @ ?nt"
      by (auto simp add: list_all2_conv_all_nth)
    have m: "ss ! i \<in> set ss" using l by simp
    have "\<forall>p\<in>set (tickets (ss ! i)). p < length h"
      using val tickets_subset_all_ptrs [OF m] by blast
    from objects_append_heap [OF this] o m show ?thesis by auto
  qed
  have mid_tk: "tk_inv days d (h2 ! q)" if "q \<in> set (all_ptrs ss2)" for q
  proof -
    from that obtain s' where s': "s' \<in> set ss2" "q \<in> set (tickets s')"
      by (auto simp add: in_all_ptrs)
    from corr [OF s'(1)] obtain s where s: "s \<in> set ss" "objects h2 s' = objects h s @ ?nt"
      by blast
    have "h2 ! q \<in> set (objects h2 s')" using s'(2) by (simp add: objects_def)
    then consider "h2 ! q \<in> set (objects h s)" | "h2 ! q \<in> set ?nt" using s(2) by auto
    then show ?thesis
    proof cases
      case 1
      then obtain p where "p \<in> set (tickets s)" "h2 ! q = h ! p" by (auto simp add: objects_def)
      then show ?thesis using tki tickets_subset_all_ptrs [OF s(1)] by auto
    next
      case 2
      then show ?thesis using tk_inv_new_ticket [OF d] by auto
    qed
  qed
  have mid: "sims_inv days d h2 ss2"
    unfolding sims_inv_def using p(3,4) mid_tk by simp
  have mid_keys: "keys (objects h2 s') = arrival_order arr (d + 1)" if "s' \<in> set ss2" for s'
  proof -
    from corr [OF that] obtain s where s: "s \<in> set ss" "objects h2 s' = objects h s @ ?nt"
      by blast
    have "keys (objects h2 s') = keys (objects h s) @ keys ?nt" using s(2) by (simp add: keys_def)
    then show ?thesis
      using ky s(1) by (simp add: keys_new_tickets arrival_order_next [OF d(1)])
  qed
  show ?thesis
  proof (cases "d < days - 1")
    case True
    then have d1: "d + 1 < days" by simp
    from simulationset_burndown_inv [OF mid d1] obtain h3 where
      b: "simulationset_burndown h2 ss2 d = Inr h3" "length h3 = length h2"
        "sims_inv days (d + 1) h3 ss2"
        "\<forall>q\<in>set (all_ptrs ss2). startday (h3 ! q) = startday (h2 ! q)
           \<and> effort (h3 ! q) = effort (h2 ! q)"
      by blast
    have k3: "keys (objects h3 s') = arrival_order arr (d + 1)" if "s' \<in> set ss2" for s'
    proof -
      have "keys (objects h3 s') = keys (objects h2 s')"
        using b(4) tickets_subset_all_ptrs [OF that] by (auto simp add: keys_def objects_def)
      then show ?thesis using mid_keys [OF that] by simp
    qed
    have "min (d + 1) (days - 1) = d + 1" using d1 by simp
    then have "main_inv arr days (d + 1) h3 ss2"
      using b(3) k3 mid_so by (simp add: main_inv_def)
    with a b(1) True p(2) show ?thesis by (simp add: ce)
  next
    case False
    then have "min (d + 1) (days - 1) = d" using d by simp
    then have "main_inv arr days (d + 1) h2 ss2"
      using mid mid_keys mid_so by (simp add: main_inv_def)
    with a False p(2) show ?thesis by (simp add: ce)
  qed
qed

lemma main_loop_unfold:
  "main_loop arr days d h simset sumCount sumEffort =
     (if d < days then
        pbind (createTicketsForDay h d days (arr d)) (\<lambda>(h1, tks, eff).
        pbind (simulationset_addTickets h1 simset tks) (\<lambda>(h2, simset2).
        pbind (if d < days - 1 then simulationset_burndown h2 simset2 d else Inr h2) (\<lambda>h3.
        main_loop arr days (d + 1) h3 simset2
          (wrap64 (sumCount + int (length (arr d)))) (wrap64 (sumEffort + eff)))))
      else Inr (h, simset, sumCount, sumEffort))"
  by (subst main_loop.simps) (simp add: Let_def)

text \<open>From a state in the invariant the loop ends in the invariant, unless \<^verbatim>\<open>make\<close>
  refuses an allocation.\<close>

lemma main_loop_inv:
  assumes "main_inv arr days d h ss" "0 \<le> d" "d \<le> days"
  shows "main_loop arr days d h ss sc se = Inl MakeSliceRange
     \<or> (\<exists>h' ss' c e. main_loop arr days d h ss sc se = Inr (h', ss', c, e)
           \<and> main_inv arr days days h' ss' \<and> map burndownaday ss' = map burndownaday ss)"
  using assms
proof (induction "nat (days - d)" arbitrary: d h ss sc se)
  case 0
  then have "d = days" by simp
  with "0.prems" show ?case by (subst main_loop_unfold) simp
next
  case (Suc n)
  then have d: "0 \<le> d" "d < days" by simp_all
  show ?case
  proof (cases "createTicketsForDay h d days (arr d)")
    case (Inl e)
    then have "e = MakeSliceRange"
      by (simp add: createTicketsForDay_eq [OF d] split: if_splits)
    with Inl have "main_loop arr days d h ss sc se = Inl MakeSliceRange"
      by (subst main_loop_unfold) (simp add: d pbind_def)
    then show ?thesis by simp
  next
    case (Inr r)
    obtain h1 tks eff where r: "r = (h1, tks, eff)" by (cases r)
    note c = Inr [unfolded r]
    from day_step [OF Suc.prems(1) d c] obtain h2 ss2 h3 where
      s: "simulationset_addTickets h1 ss tks = Inr (h2, ss2)"
        "(if d < days - 1 then simulationset_burndown h2 ss2 d else Inr h2) = Inr h3"
        "main_inv arr days (d + 1) h3 ss2"
        "map burndownaday ss2 = map burndownaday ss"
      by blast
    have n: "n = nat (days - (d + 1))" using Suc.hyps(2) by simp
    have d1: "0 \<le> d + 1" "d + 1 \<le> days" using d by simp_all
    let ?sc = "wrap64 (sc + int (length (arr d)))" and ?se = "wrap64 (se + eff)"
    have u: "main_loop arr days d h ss sc se = main_loop arr days (d + 1) h3 ss2 ?sc ?se"
      by (subst main_loop_unfold) (simp add: d c s(1) pbind_def s(2))
    from Suc.hyps(1) [OF n s(3) d1, of ?sc ?se] s(4) show ?thesis
      unfolding u by simp
  qed
qed

lemma NewSimulationset_eq:
  "NewSimulationset days = Inl MakeSliceRange \<or> NewSimulationset days =
     Inr [\<lparr>name = ''Equal working'', burndownaday = BurndownMaxWip, tickets = []\<rparr>,
          \<lparr>name = ''Oldest first'', burndownaday = BurndownOldestFirst, tickets = []\<rparr>,
          \<lparr>name = ''Shortest first'', burndownaday = BurndownSjf, tickets = []\<rparr>,
          \<lparr>name = ''Oldest, shortest first'', burndownaday = BurndownOsjf, tickets = []\<rparr>,
          \<lparr>name = ''Age weighted, shortest first'', burndownaday = BurndownAwsjf,
             tickets = []\<rparr>]"
  by (simp add: NewSimulationset_def go_quo_def pbind_def NewSimulation_def)

text \<open>A run ends in the invariant, unless \<^verbatim>\<open>make\<close> refuses an allocation: there is no other
  panic.\<close>

lemma main_cases:
  "main days arr = Inl MakeSliceRange
   \<or> (\<exists>h ss c e. main days arr = Inr (h, ss, c, e) \<and> main_inv arr days days h ss
         \<and> map burndownaday ss =
             [BurndownMaxWip, BurndownOldestFirst, BurndownSjf, BurndownOsjf, BurndownAwsjf])"
proof -
  let ?ss0 = "[\<lparr>name = ''Equal working'', burndownaday = BurndownMaxWip, tickets = []\<rparr>,
          \<lparr>name = ''Oldest first'', burndownaday = BurndownOldestFirst, tickets = []\<rparr>,
          \<lparr>name = ''Shortest first'', burndownaday = BurndownSjf, tickets = []\<rparr>,
          \<lparr>name = ''Oldest, shortest first'', burndownaday = BurndownOsjf, tickets = []\<rparr>,
          \<lparr>name = ''Age weighted, shortest first'', burndownaday = BurndownAwsjf,
             tickets = []\<rparr>]"
  from NewSimulationset_eq [of days] show ?thesis
  proof
    assume "NewSimulationset days = Inl MakeSliceRange"
    then show ?thesis by (simp add: main_def pbind_def)
  next
    assume n: "NewSimulationset days = Inr ?ss0"
    have m: "main days arr = main_loop arr days 0 [] ?ss0 0 0"
      by (simp add: main_def n pbind_def)
    have i: "main_inv arr days d [] ?ss0" if "d \<le> 0" for d
      using that
      by (simp add: main_inv_def sims_inv_def all_ptrs_def keys_def objects_def arrival_order_def)
    show ?thesis
    proof (cases "0 \<le> days")
      case True
      from main_loop_inv [OF i [of 0] _ True, of 0 0] show ?thesis unfolding m by simp
    next
      case False
      then have "main_loop arr days 0 [] ?ss0 0 0 = Inr ([], ?ss0, 0, 0)"
        by (subst main_loop_unfold) simp
      moreover have "main_inv arr days days [] ?ss0" using False by (simp add: i)
      ultimately show ?thesis unfolding m by simp
    qed
  qed
qed

lemma main_tickets:
  assumes "main days arr = Inr (h, ss, c, e)" "s \<in> set ss" "p \<in> set (tickets s)"
  shows "tk_inv days (days - 1) (h ! p)" "0 < days"
proof -
  from main_cases [of days arr] assms(1) have "main_inv arr days days h ss" by auto
  then have si: "sims_inv days (min days (days - 1)) h ss" by (simp add: main_inv_def)
  have m: "min days (days - 1) = days - 1" by simp
  have "p \<in> set (all_ptrs ss)" using assms(2,3) by (auto simp add: in_all_ptrs)
  with si show t: "tk_inv days (days - 1) (h ! p)" by (simp add: sims_inv_def m)
  then show "0 < days" by (simp add: tk_inv_def)
qed

text \<open>The tickets of a run are tickets of the program in the sense of \<open>int64_ticket\<close>,
  when their efforts are values of \<^verbatim>\<open>int\<close> that are not negative (the arrival generator
  draws efforts of at least 1).\<close>

lemma tk_inv_int64_ticket:
  assumes "tk_inv days d t" "0 \<le> effort t" "int64 (effort t)" "days < 2 ^ 63"
  shows "int64_ticket t d"
proof -
  from assms(1) have l: "int (length (remaining t)) = days"
    and s: "0 \<le> startday t" "startday t \<le> d"
    and e: "rem_at t (startday t) = effort t"
    and mono: "\<forall>k. startday t \<le> k \<and> k < d \<longrightarrow> rem_at t (k + 1) \<le> rem_at t k"
    and nn: "0 \<le> effort t \<longrightarrow> (\<forall>k. startday t \<le> k \<and> k \<le> d \<longrightarrow> 0 \<le> rem_at t k)"
    by (simp_all add: tk_inv_def)
  have "rem_at t d \<le> rem_at t (startday t)"
    by (rule antimono_chain [OF mono]) (use s in simp_all)
  moreover have "0 \<le> rem_at t d" using nn assms(2) s by simp
  ultimately have "int64 (rem_at t d)" using e assms(3) by (simp add: int64_def)
  with l s(1) assms(4) show ?thesis by (simp add: int64_ticket_def)
qed

lemma main_arrivals_done: "main 4 arrivals_done = Inr (done_heap, done_sims, 1, 10)"
  by code_simp

section \<open>The claims on the burn-down primitive\<close>

text \<open>
  C1, as the code has it. The claim is that for every integer \<open>hours\<close> the slot of day
  \<open>d + 1\<close> receives \<open>remaining - h\<close> and the call returns \<open>hoursleft - h\<close>, where
  \<open>h = min(remaining, hours, hoursleft)\<close>. On the waiting ticket (remaining effort 5 on
  day 1) with capacity 8 and the offer \<open>- 2\<^sup>6\<^sup>3\<close>, the least \<^verbatim>\<open>int\<close>, \<open>h\<close> is the offer, and
  \<open>remaining - h\<close> and \<open>hoursleft - h\<close> are \<open>2\<^sup>6\<^sup>3 + 5\<close> and \<open>2\<^sup>6\<^sup>3 + 8\<close>, which no \<^verbatim>\<open>int\<close>
  holds: the slot receives \<open>5 - 2\<^sup>6\<^sup>3\<close> and the call returns \<open>8 - 2\<^sup>6\<^sup>3\<close>.
\<close>

theorem C1_counterexample:
  "rem_at waiting_ticket 1 = 5
   \<and> min (rem_at waiting_ticket 1) (min (- 9223372036854775808) 8) = - 9223372036854775808
   \<and> rem_at waiting_ticket 1 - (- 9223372036854775808) = 9223372036854775813
   \<and> (8 :: int) - (- 9223372036854775808) = 9223372036854775816
   \<and> burndownhours_int64 waiting_ticket 1 8 (- 9223372036854775808) =
       Inr (\<lparr>startday = 0, leadtime = 2, endday = 1, effort = 5,
              remaining = [5, 5, - 9223372036854775803]\<rparr>,
            - 9223372036854775800)"
  by (simp add: waiting_ticket_def rem_at_def burndownhours_int64_def slice_get_def
      slice_set_def wrap64_def)

text \<open>
  C1, amended. For a ticket whose slots of day \<open>d\<close> and \<open>d + 1\<close> exist, capacity
  \<open>hoursleft > 0\<close> and any \<open>hours\<close>: when the remaining effort for day \<open>d\<close> is positive,
  the call spends \<open>h = min(remaining, hours, hoursleft)\<close>; the slot of day \<open>d + 1\<close>
  receives \<open>remaining - h\<close> and the call returns \<open>hoursleft - h\<close> in the arithmetic of
  \<^verbatim>\<open>int\<close>, that is, reduced modulo \<open>2\<^sup>6\<^sup>4\<close>. They are exactly \<open>remaining - h\<close> and
  \<open>hoursleft - h\<close> whenever these differences are below \<open>2\<^sup>6\<^sup>3\<close>, and so for every offer
  that is not negative.
\<close>

theorem C1_burndownhours_spends_min:
  assumes "day_ok t day" "int (length (remaining t)) < 2 ^ 63"
    and "0 < hoursleft" "0 < rem_at t day"
  shows "\<exists>t' hl'. burndownhours_int64 t day hoursleft hours = Inr (t', hl')
          \<and> hl' = wrap64 (hoursleft - min (rem_at t day) (min hours hoursleft))
          \<and> rem_at t' (day + 1) =
                wrap64 (rem_at t day - min (rem_at t day) (min hours hoursleft))
          \<and> (rem_at t day - min (rem_at t day) (min hours hoursleft) < 2 ^ 63 \<longrightarrow>
               rem_at t' (day + 1) = rem_at t day - min (rem_at t day) (min hours hoursleft))
          \<and> (hoursleft - min (rem_at t day) (min hours hoursleft) < 2 ^ 63 \<longrightarrow>
               hl' = hoursleft - min (rem_at t day) (min hours hoursleft))
          \<and> (int64 (rem_at t day) \<and> int64 hoursleft \<and> 0 \<le> hours \<longrightarrow>
               rem_at t' (day + 1) = rem_at t day - min (rem_at t day) (min hours hoursleft)
               \<and> hl' = hoursleft - min (rem_at t day) (min hours hoursleft))"
proof -
  let ?h = "min (rem_at t day) (min hours hoursleft)"
  have ge: "0 \<le> rem_at t day - ?h" "0 \<le> hoursleft - ?h" by simp_all
  have w: "wrap64 x = x" if "0 \<le> x" "x < 2 ^ 63" for x
    using that by (simp add: wrap64_id int64_def)
  have n: "nat (day + 1) < length (remaining t)"
    using assms(1) by (simp add: day_ok_def nat_less_iff)
  have le: "rem_at t day - ?h < 2 ^ 63 \<and> hoursleft - ?h < 2 ^ 63"
    if "int64 (rem_at t day) \<and> int64 hoursleft \<and> 0 \<le> hours"
    using that assms(3,4) by (auto simp add: int64_def min_def)
  show ?thesis
    unfolding burndownhours_int64_result [OF assms(1,2)]
    using assms(3,4) n w [OF ge(1)] w [OF ge(2)] le by (simp add: rem_at_def)
qed

theorem C1_witness:
  "day_ok waiting_ticket 1 \<and> int (length (remaining waiting_ticket)) < 2 ^ 63
   \<and> (0::int) < 8 \<and> 0 < rem_at waiting_ticket 1
   \<and> (\<exists>t'. burndownhours_int64 waiting_ticket 1 8 2 = Inr (t', 6) \<and> rem_at t' 2 = 3)"
proof -
  have a: "day_ok waiting_ticket 1" "int (length (remaining waiting_ticket)) < 2 ^ 63"
    "(0::int) < 8" "0 < rem_at waiting_ticket 1" "rem_at waiting_ticket 1 = 5"
    by (simp_all add: waiting_ticket_def day_ok_def rem_at_def)
  from C1_burndownhours_spends_min [OF a(1-4), of 2] obtain t' hl' where
    r: "burndownhours_int64 waiting_ticket 1 8 2 = Inr (t', hl')"
    "rem_at waiting_ticket 1 - min (rem_at waiting_ticket 1) (min 2 8) < 2 ^ 63 \<longrightarrow>
       rem_at t' (1 + 1) = rem_at waiting_ticket 1 - min (rem_at waiting_ticket 1) (min 2 8)"
    "8 - min (rem_at waiting_ticket 1) (min 2 8) < 2 ^ 63 \<longrightarrow>
       hl' = 8 - min (rem_at waiting_ticket 1) (min 2 8)"
    by blast
  from r(2,3) have "rem_at t' 2 = 3" "hl' = 6" by (simp_all add: a(5))
  with r(1) a show ?thesis by simp
qed

text \<open>
  C2, as the code has it. The claim says that \<open>endday\<close> and \<open>leadtime\<close> change only on
  days on which the ticket receives hours. The code sets them in the branch
  \<^verbatim>\<open>if workremain > 0\<close>, outside the inner test of the capacity: on the waiting ticket,
  with no hours available and none offered, day 1 moves \<open>endday\<close> from 0 to 1 and
  \<open>leadtime\<close> from 1 to 2, while the remaining effort stays 5.
\<close>

theorem C2_counterexample:
  "endday waiting_ticket = 0 \<and> leadtime waiting_ticket = 1
   \<and> burndownhours waiting_ticket 1 0 0 =
       Inr (\<lparr>startday = 0, leadtime = 2, endday = 1, effort = 5, remaining = [5, 5, 5]\<rparr>, 0)"
  by (simp add: waiting_ticket_def burndownhours_def slice_get_def slice_set_def)

text \<open>
  C2, amended. A call on day \<open>d\<close> sets \<open>endday\<close> to \<open>d\<close> and \<open>leadtime\<close> to
  \<open>d + 1 - startday\<close> whenever the remaining effort for day \<open>d\<close> is positive, whether or
  not any hours are spent; when the remaining effort is zero (or less) both fields are
  left as they are, so they are frozen from the day after the effort reached zero.
\<close>

theorem C2_stats_follow_open_ticket:
  assumes "day_ok t day"
  shows "\<exists>t' hl'. burndownhours t day hoursleft hours = Inr (t', hl')
          \<and> (if 0 < rem_at t day
             then endday t' = day \<and> leadtime t' = day + 1 - startday t
             else endday t' = endday t \<and> leadtime t' = leadtime t)"
  using assms by (simp add: burndownhours_burnt burnt_def)

theorem C2_witness:
  "day_ok waiting_ticket 1
   \<and> (\<exists>t' hl'. burndownhours waiting_ticket 1 0 0 = Inr (t', hl')
          \<and> endday t' = 1 \<and> leadtime t' = 2)"
  using C2_stats_follow_open_ticket [of waiting_ticket 1 0 0]
  by (simp add: waiting_ticket_def day_ok_def rem_at_def)

section \<open>The claims on the policies\<close>

text \<open>
  The theorems of this section hold of a population on a day (\<open>pop_ok\<close>): distinct, valid
  pointers to tickets that have the slots of the day and of the next day and did not start
  after the day. Every population the driver hands to a policy is of this kind (lemmas
  \<open>day_step\<close> and \<open>sims_inv_pop_ok\<close>).
\<close>

text \<open>
  C4. For each of the five policies and every day, the hours spent on the population that
  day (the sum over its tickets of the fall of the remaining effort) are at most the
  capacity consumed, \<open>workhoursday - hoursleft\<close>, hence at most \<open>workhoursday = 8\<close>; the
  values \<^verbatim>\<open>hoursleft\<close> takes through the successive calls of \<^verbatim>\<open>burndownhours\<close> never
  increase and stay between 0 and 8.
\<close>

theorem C4_daily_capacity:
  assumes "pop_ok h sim day"
  shows "\<exists>h' hl'. call_burndownaday f h sim day = Inr (h', hl')
     \<and> workhoursday = 8
     \<and> hours_spent h h' day (tickets sim) \<le> workhoursday - hl' \<and> 0 \<le> hl'
     \<and> hours_spent h h' day (tickets sim) \<le> workhoursday
     \<and> sorted_wrt (\<ge>) (hoursleft_trace f h sim day)
     \<and> (\<forall>x\<in>set (hoursleft_trace f h sim day). 0 \<le> x \<and> x \<le> workhoursday)
     \<and> last (hoursleft_trace f h sim day) = hl'"
proof -
  obtain h' hl' where
    a: "call_burndownaday f h sim day = Inr (h', hl')"
    "day_effect h h' (tickets sim) day"
    "hours_spent h h' day (tickets sim) \<le> workhoursday - hl'" "0 \<le> hl'" "hl' \<le> workhoursday"
    by (rule policy_effect [OF assms])
  from hoursleft_trace_props [OF assms a(1)]
  have t: "sorted_wrt (\<ge>) (hoursleft_trace f h sim day)"
    "\<forall>x\<in>set (hoursleft_trace f h sim day). hl' \<le> x \<and> x \<le> workhoursday"
    "last (hoursleft_trace f h sim day) = hl'"
    by simp_all
  have b: "\<forall>x\<in>set (hoursleft_trace f h sim day). 0 \<le> x \<and> x \<le> workhoursday"
    using t(2) a(4) by fastforce
  have w: "workhoursday = 8" by (simp add: workhoursday_def)
  have "hours_spent h h' day (tickets sim) \<le> workhoursday" using a(3,4) by simp
  with a t(1,3) b w show ?thesis by blast
qed

theorem C4_witness:
  "pop_ok two_tickets (sim_of BurndownMaxWip) 1
   \<and> (\<exists>h' hl'. call_burndownaday BurndownMaxWip two_tickets (sim_of BurndownMaxWip) 1 = Inr (h', hl')
     \<and> workhoursday = 8
     \<and> hours_spent two_tickets h' 1 (tickets (sim_of BurndownMaxWip)) \<le> workhoursday - hl' \<and> 0 \<le> hl'
     \<and> hours_spent two_tickets h' 1 (tickets (sim_of BurndownMaxWip)) \<le> workhoursday
     \<and> sorted_wrt (\<ge>) (hoursleft_trace BurndownMaxWip two_tickets (sim_of BurndownMaxWip) 1)
     \<and> last (hoursleft_trace BurndownMaxWip two_tickets (sim_of BurndownMaxWip) 1) = hl')
   \<and> hoursleft_trace BurndownMaxWip two_tickets (sim_of BurndownMaxWip) 1 = [8, 6, 4, 4, 0, 0]"
proof -
  have t: "hoursleft_trace BurndownMaxWip two_tickets (sim_of BurndownMaxWip) 1 = [8, 6, 4, 4, 0, 0]"
    by code_simp
  from C4_daily_capacity [OF pop_ok_two_tickets, of BurndownMaxWip] pop_ok_two_tickets t
  show ?thesis by blast
qed

text \<open>
  C5. For each of the four single-pass policies, on every day with a next day: either the
  whole capacity of 8 hours is consumed, or the total remaining work of the open tickets
  is less than the capacity and every open ticket has remaining effort 0 for the next day.
\<close>

theorem C5_single_pass_exhausts:
  assumes "pop_ok h sim day" "f \<noteq> BurndownMaxWip"
  shows "\<exists>h' hl'. call_burndownaday f h sim day = Inr (h', hl')
     \<and> ((hl' = 0 \<and> hours_spent h h' day (tickets sim) = workhoursday)
        \<or> (open_work h day (tickets sim) < workhoursday
           \<and> (\<forall>p\<in>set (tickets sim). 0 < rem_at (h ! p) day \<longrightarrow> rem_at (h' ! p) (day + 1) = 0)))"
proof -
  obtain h' hl' where
    a: "call_burndownaday f h sim day = Inr (h', hl')"
    "day_effect h h' (tickets sim) day"
    "hours_spent h h' day (tickets sim) = workhoursday - hl'" "0 \<le> hl'" "hl' \<le> workhoursday"
    "hl' = 0 \<or> (\<forall>p\<in>set (tickets sim). 0 < rem_at (h ! p) day
        \<longrightarrow> spent h h' day p = rem_at (h ! p) day)"
    by (rule policy_single_pass [OF assms])
  show ?thesis
  proof (cases "hl' = 0")
    case True
    with a(1,3) show ?thesis by simp
  next
    case False
    with a(6) have x: "\<forall>p\<in>set (tickets sim). 0 < rem_at (h ! p) day
        \<longrightarrow> spent h h' day p = rem_at (h ! p) day" by simp
    have z: "\<forall>p\<in>set (tickets sim). 0 < rem_at (h ! p) day \<longrightarrow> rem_at (h' ! p) (day + 1) = 0"
      using x by (simp add: spent_def)
    have "spent h h' day p = max 0 (rem_at (h ! p) day)" if "p \<in> set (tickets sim)" for p
      using a(2) x that by (cases "0 < rem_at (h ! p) day") (auto simp add: day_effect_def)
    then have "open_work h day (tickets sim) = hours_spent h h' day (tickets sim)"
      unfolding open_work_def hours_spent_def by (intro arg_cong [of _ _ sum_list]) simp
    with a(3,4) False have "open_work h day (tickets sim) < workhoursday" by simp
    with a(1) z show ?thesis by blast
  qed
qed

theorem C5_witness:
  "pop_ok two_tickets (sim_of BurndownSjf) 1 \<and> BurndownSjf \<noteq> BurndownMaxWip
   \<and> (\<exists>h' hl'. call_burndownaday BurndownSjf two_tickets (sim_of BurndownSjf) 1 = Inr (h', hl')
     \<and> ((hl' = 0 \<and> hours_spent two_tickets h' 1 (tickets (sim_of BurndownSjf)) = workhoursday)
        \<or> (open_work two_tickets 1 (tickets (sim_of BurndownSjf)) < workhoursday
           \<and> rem_at (h' ! 0) 2 = 0 \<and> rem_at (h' ! 1) 2 = 0)))
   \<and> open_work two_tickets 1 (tickets (sim_of BurndownSjf)) = 15
   \<and> call_burndownaday BurndownSjf two_tickets (sim_of BurndownSjf) 1 =
       Inr ([\<lparr>startday = 0, leadtime = 2, endday = 1, effort = 20, remaining = [20, 12, 7]\<rparr>,
             \<lparr>startday = 1, leadtime = 1, endday = 1, effort = 3, remaining = [0, 3, 0]\<rparr>], 0)
   \<and> open_work claim_tickets 1 (tickets (sim_of BurndownSjf)) = 3
   \<and> call_burndownaday BurndownSjf claim_tickets (sim_of BurndownSjf) 1 =
       Inr ([\<lparr>startday = 0, leadtime = 1, endday = 0, effort = 5, remaining = [5, 0, 0]\<rparr>,
             \<lparr>startday = 1, leadtime = 1, endday = 1, effort = 3, remaining = [0, 3, 0]\<rparr>], 5)"
proof -
  have a: "\<exists>h' hl'. call_burndownaday BurndownSjf two_tickets (sim_of BurndownSjf) 1 = Inr (h', hl')
     \<and> ((hl' = 0 \<and> hours_spent two_tickets h' 1 (tickets (sim_of BurndownSjf)) = workhoursday)
        \<or> (open_work two_tickets 1 (tickets (sim_of BurndownSjf)) < workhoursday
           \<and> rem_at (h' ! 0) 2 = 0 \<and> rem_at (h' ! 1) 2 = 0))"
    using C5_single_pass_exhausts [OF pop_ok_two_tickets, of BurndownSjf]
    by (simp add: sim_of_def two_tickets_def rem_at_def)
  have b: "open_work two_tickets 1 (tickets (sim_of BurndownSjf)) = 15"
    "call_burndownaday BurndownSjf two_tickets (sim_of BurndownSjf) 1 =
       Inr ([\<lparr>startday = 0, leadtime = 2, endday = 1, effort = 20, remaining = [20, 12, 7]\<rparr>,
             \<lparr>startday = 1, leadtime = 1, endday = 1, effort = 3, remaining = [0, 3, 0]\<rparr>], 0)"
    "open_work claim_tickets 1 (tickets (sim_of BurndownSjf)) = 3"
    "call_burndownaday BurndownSjf claim_tickets (sim_of BurndownSjf) 1 =
       Inr ([\<lparr>startday = 0, leadtime = 1, endday = 0, effort = 5, remaining = [5, 0, 0]\<rparr>,
             \<lparr>startday = 1, leadtime = 1, endday = 1, effort = 3, remaining = [0, 3, 0]\<rparr>], 5)"
    by code_simp+
  show ?thesis
    by (intro conjI pop_ok_two_tickets a b) simp
qed

text \<open>
  C6, the code at a failing input. The claim is that Oldest-then-shortest serves tickets
  in ascending start day and only breaks ties by remaining effort. The comparison of
  \<^verbatim>\<open>burndownOsjf\<close> returns true when the first ticket started earlier, and otherwise
  compares the remaining efforts, also when the first ticket started \<^emph>\<open>later\<close>. With A
  (day 0, effort 20) and B (day 1, effort 3), on day 1 the sorted copy is B, A: B receives
  its 3 hours first and A the 5 that are left, as under Shortest-first; served by start
  day (as Oldest-first does, simulation 1) A would receive all 8 hours. The run of \<open>main\<close>
  over three days shows the same tickets at its end. In the example of the specification
  (A with effort 5) A is finished on day 0, so that on day 1 its remaining effort 0 is the
  smaller one and the order A, B says nothing about the start day.
\<close>

theorem C6_osjf_serves_younger_first:
  "sort_Slice (copyTickets (sim_of BurndownOsjf)) (less_Osjf two_tickets 1) = Inr [1, 0]
   \<and> sort_Slice (copyTickets (sim_of BurndownOsjf)) (less_Osjf claim_tickets 1) = Inr [0, 1]
   \<and> burndownOsjf two_tickets (sim_of BurndownOsjf) 1 =
       Inr ([\<lparr>startday = 0, leadtime = 2, endday = 1, effort = 20, remaining = [20, 12, 7]\<rparr>,
             \<lparr>startday = 1, leadtime = 1, endday = 1, effort = 3, remaining = [0, 3, 0]\<rparr>], 0)
   \<and> final_population (main 3 arrivals_ab) 3 =
       Inr [\<lparr>startday = 0, leadtime = 2, endday = 1, effort = 20, remaining = [20, 12, 7]\<rparr>,
            \<lparr>startday = 1, leadtime = 1, endday = 1, effort = 3, remaining = [0, 3, 0]\<rparr>]
   \<and> final_population (main 3 arrivals_ab) 1 =
       Inr [\<lparr>startday = 0, leadtime = 2, endday = 1, effort = 20, remaining = [20, 12, 4]\<rparr>,
            \<lparr>startday = 1, leadtime = 1, endday = 1, effort = 3, remaining = [0, 3, 3]\<rparr>]"
  by code_simp

text \<open>
  C7. In the Equal-working policy the first pass, in arrival order, spends at most 2 hours
  on any ticket; the second pass, over the same order, runs only when the first pass left
  capacity (\<open>hoursleft > 0\<close>), and otherwise the first pass is the whole day, so that only
  the second pass can give a ticket more than 2 hours.
\<close>

theorem C7_equal_working_cap:
  assumes "pop_ok h sim day"
  shows "\<exists>h1 hl1. burn_range h (tickets sim) day workhoursday (\<lambda>_. 2) = Inr (h1, hl1)
     \<and> (\<forall>p\<in>set (tickets sim). 0 \<le> spent h h1 day p \<and> spent h h1 day p \<le> 2)
     \<and> burndownMaxWip h sim day =
         (if 0 < hl1 then burn_range h1 (tickets sim) day hl1 (\<lambda>hl. hl) else Inr (h1, hl1))"
proof -
  have p: "ptrs_ok h (tickets sim) day" using assms by (simp add: pop_ok_def)
  obtain h1 hl1 where
    a: "burn_range h (tickets sim) day workhoursday (\<lambda>_. 2) = Inr (h1, hl1)"
    "day_effect h h1 (tickets sim) day"
    "\<forall>p\<in>set (tickets sim). spent h h1 day p \<le> 2"
    "hours_spent h h1 day (tickets sim) = workhoursday - hl1" "0 \<le> hl1" "hl1 \<le> workhoursday"
    by (rule maxwip_first_pass [OF p])
  have b: "\<forall>p\<in>set (tickets sim). 0 \<le> spent h h1 day p \<and> spent h h1 day p \<le> 2"
    using a(2,3) by (simp add: day_effect_def)
  have "burndownMaxWip h sim day =
         (if 0 < hl1 then burn_range h1 (tickets sim) day hl1 (\<lambda>hl. hl) else Inr (h1, hl1))"
    using a(1) by (simp add: burndownMaxWip_unfold pbind_def)
  with a(1) b show ?thesis by blast
qed

theorem C7_witness:
  "pop_ok two_tickets (sim_of BurndownMaxWip) 1
   \<and> (\<exists>h1 hl1. burn_range two_tickets (tickets (sim_of BurndownMaxWip)) 1 workhoursday (\<lambda>_. 2)
          = Inr (h1, hl1)
     \<and> (\<forall>p\<in>set (tickets (sim_of BurndownMaxWip)).
           0 \<le> spent two_tickets h1 1 p \<and> spent two_tickets h1 1 p \<le> 2)
     \<and> burndownMaxWip two_tickets (sim_of BurndownMaxWip) 1 =
         (if 0 < hl1 then burn_range h1 (tickets (sim_of BurndownMaxWip)) 1 hl1 (\<lambda>hl. hl)
          else Inr (h1, hl1)))
   \<and> burn_range two_tickets (tickets (sim_of BurndownMaxWip)) 1 workhoursday (\<lambda>_. 2) =
       Inr ([\<lparr>startday = 0, leadtime = 2, endday = 1, effort = 20, remaining = [20, 12, 10]\<rparr>,
             \<lparr>startday = 1, leadtime = 1, endday = 1, effort = 3, remaining = [0, 3, 1]\<rparr>], 4)
   \<and> burndownMaxWip two_tickets (sim_of BurndownMaxWip) 1 =
       Inr ([\<lparr>startday = 0, leadtime = 2, endday = 1, effort = 20, remaining = [20, 12, 8]\<rparr>,
             \<lparr>startday = 1, leadtime = 1, endday = 1, effort = 3, remaining = [0, 3, 3]\<rparr>], 0)"
proof -
  have a: "burn_range two_tickets (tickets (sim_of BurndownMaxWip)) 1 workhoursday (\<lambda>_. 2) =
       Inr ([\<lparr>startday = 0, leadtime = 2, endday = 1, effort = 20, remaining = [20, 12, 10]\<rparr>,
             \<lparr>startday = 1, leadtime = 1, endday = 1, effort = 3, remaining = [0, 3, 1]\<rparr>], 4)"
    by code_simp
  have b: "burndownMaxWip two_tickets (sim_of BurndownMaxWip) 1 =
       Inr ([\<lparr>startday = 0, leadtime = 2, endday = 1, effort = 20, remaining = [20, 12, 8]\<rparr>,
             \<lparr>startday = 1, leadtime = 1, endday = 1, effort = 3, remaining = [0, 3, 3]\<rparr>], 0)"
    by code_simp
  show ?thesis
    by (intro conjI pop_ok_two_tickets a b C7_equal_working_cap [OF pop_ok_two_tickets])
qed

section \<open>The claim on the statistics\<close>

lemma main_no_arrivals:
  "main 2 no_arrivals =
     Inr ([], [\<lparr>name = ''Equal working'', burndownaday = BurndownMaxWip, tickets = []\<rparr>,
               \<lparr>name = ''Oldest first'', burndownaday = BurndownOldestFirst, tickets = []\<rparr>,
               \<lparr>name = ''Shortest first'', burndownaday = BurndownSjf, tickets = []\<rparr>,
               \<lparr>name = ''Oldest, shortest first'', burndownaday = BurndownOsjf, tickets = []\<rparr>,
               \<lparr>name = ''Age weighted, shortest first'', burndownaday = BurndownAwsjf,
                  tickets = []\<rparr>], 0, 0)"
  by code_simp

text \<open>On the two tickets the mean lead time is 1/2, the deviation 1/2, their sum 1.\<close>

lemma statsLeadTime_two_tickets:
  "statsLeadTime two_tickets (sim_of BurndownMaxWip) = Inr (Finite (1/2), Finite (1/2), Finite 1)"
  by (simp add: statsLeadTime_def pbind_def fsub_def sim_of_def two_tickets_def deref_def real_sqrt_divide power2_eq_square Let_def)

text \<open>
  C8, as the code has it. The claim is that on an empty population the aggregator
  signals a distinct ``no data'' result rather than NaN. \<^verbatim>\<open>statsLeadTime\<close> has no test
  of the length and returns three \<^verbatim>\<open>float64\<close> only: after a run without arrivals every
  population is empty and the three results are NaN, from \<open>0 / 0\<close>.
\<close>

theorem C8_counterexample:
  "final_population (main 2 no_arrivals) 0 = Inr []
   \<and> final_stats (main 2 no_arrivals) 0 = Inr (NaN, NaN, NaN)"
  unfolding main_no_arrivals
  by (simp add: final_population_def final_stats_def pbind_def statsLeadTime_def fsub_def)

text \<open>
  C8, amended. On an empty population \<^verbatim>\<open>statsLeadTime\<close> returns NaN for the mean, for the
  standard deviation and for their sum, and nothing else tells the caller that there
  were no tickets.
\<close>

theorem C8_empty_population_gives_NaN:
  assumes "tickets sim = []"
  shows "statsLeadTime h sim = Inr (NaN, NaN, NaN)"
  using assms by (simp add: statsLeadTime_def pbind_def fsub_def)

theorem C8_witness:
  "tickets (sim_of BurndownMaxWip\<lparr>tickets := []\<rparr>) = []
   \<and> statsLeadTime two_tickets (sim_of BurndownMaxWip\<lparr>tickets := []\<rparr>) = Inr (NaN, NaN, NaN)"
  using C8_empty_population_gives_NaN [of "sim_of BurndownMaxWip\<lparr>tickets := []\<rparr>" two_tickets]
  by simp

section \<open>The claims on the driver\<close>



text \<open>
  C9, as the code has it. The claim is that for every ticket, policy and arrival
  sequence the remaining effort reaches exactly 0 by the day the lead time stops
  changing. A ticket of effort 20 that arrives on day 0 of a run of three days is
  burnt on days 0 and 1 to 4 hours; on day 2, the last day, nothing is burnt: the lead
  time stays 2 and the remaining effort stays 4 (Oldest-first, simulation 1).
\<close>

theorem C9_counterexample:
  "final_population (main 3 arrivals_open) 1 =
     Inr [\<lparr>startday = 0, leadtime = 2, endday = 1, effort = 20, remaining = [20, 12, 4]\<rparr>]"
  by code_simp

text \<open>
  C9, amended. For every ticket of every policy's population at the end of a run:
  the remaining effort does not increase from the start day on and, for an effort that
  is not negative, is never negative; the lead time \<open>l\<close> is at least 0, the first \<open>l\<close>
  days from the start day are exactly the days of burn-down on which the ticket was open,
  and \<open>startday + l\<close> is at most the last day \<open>days - 1\<close>; when \<open>startday + l\<close> is before
  the last day, the remaining effort is exactly 0 from day \<open>startday + l\<close> on. A ticket
  with \<open>startday + l = days - 1\<close> was still open on the last day of burn-down and may end
  the run with remaining effort.
\<close>

theorem C9_remaining_trajectory:
  assumes "main days arr = Inr (h, ss, c, e)" "s \<in> set ss" "p \<in> set (tickets s)"
  shows "(\<forall>k. startday (h ! p) \<le> k \<and> k + 1 < days \<longrightarrow> rem_at (h ! p) (k + 1) \<le> rem_at (h ! p) k)
     \<and> (0 \<le> effort (h ! p) \<longrightarrow>
          (\<forall>k. startday (h ! p) \<le> k \<and> k < days \<longrightarrow> 0 \<le> rem_at (h ! p) k))
     \<and> 0 \<le> leadtime (h ! p) \<and> startday (h ! p) + leadtime (h ! p) \<le> days - 1
     \<and> (\<forall>k. startday (h ! p) \<le> k \<and> k < startday (h ! p) + leadtime (h ! p)
            \<longrightarrow> 0 < rem_at (h ! p) k)
     \<and> (0 \<le> effort (h ! p) \<and> startday (h ! p) + leadtime (h ! p) < days - 1 \<longrightarrow>
          (\<forall>k. startday (h ! p) + leadtime (h ! p) \<le> k \<and> k < days \<longrightarrow> rem_at (h ! p) k = 0))"
proof -
  let ?t = "h ! p"
  let ?s = "startday ?t"
  let ?m = "days - 1"
  from main_tickets(1) [OF assms] have inv: "tk_inv days ?m ?t" .
  then have mono: "\<forall>k. ?s \<le> k \<and> k < ?m \<longrightarrow> rem_at ?t (k + 1) \<le> rem_at ?t k"
    and nonneg: "0 \<le> effort ?t \<longrightarrow> (\<forall>k. ?s \<le> k \<and> k \<le> ?m \<longrightarrow> 0 \<le> rem_at ?t k)"
    and lt: "0 \<le> leadtime ?t" "?s + leadtime ?t \<le> ?m"
    and pos: "\<forall>k. ?s \<le> k \<and> k < ?s + leadtime ?t \<longrightarrow> 0 < rem_at ?t k"
    and zero: "\<forall>k. ?s + leadtime ?t \<le> k \<and> k < ?m \<longrightarrow> rem_at ?t k \<le> 0"
    by (simp_all add: tk_inv_def)
  have c1: "\<forall>k. ?s \<le> k \<and> k + 1 < days \<longrightarrow> rem_at ?t (k + 1) \<le> rem_at ?t k"
    using mono by simp
  have c2: "0 \<le> effort ?t \<longrightarrow> (\<forall>k. ?s \<le> k \<and> k < days \<longrightarrow> 0 \<le> rem_at ?t k)"
    using nonneg by simp
  have c3: "0 \<le> effort ?t \<and> ?s + leadtime ?t < ?m \<longrightarrow>
          (\<forall>k. ?s + leadtime ?t \<le> k \<and> k < days \<longrightarrow> rem_at ?t k = 0)"
  proof (intro impI allI)
    fix k assume a: "0 \<le> effort ?t \<and> ?s + leadtime ?t < ?m" and k: "?s + leadtime ?t \<le> k \<and> k < days"
    have sk: "?s \<le> k" using k lt by simp
    have ge: "0 \<le> rem_at ?t k" using a nonneg sk k by simp
    have "rem_at ?t k \<le> 0"
    proof (cases "k < ?m")
      case True
      with k zero show ?thesis by simp
    next
      case False
      with k have km: "k = ?m" by simp
      have i: "?s \<le> ?m - 1 \<and> ?m - 1 < ?m" using a lt by simp
      from mono i have "rem_at ?t (?m - 1 + 1) \<le> rem_at ?t (?m - 1)" by blast
      moreover have "?s + leadtime ?t \<le> ?m - 1 \<and> ?m - 1 < ?m" using a by simp
      with zero have "rem_at ?t (?m - 1) \<le> 0" by blast
      ultimately show ?thesis using km by simp
    qed
    with ge show "rem_at ?t k = 0" by simp
  qed
  from c1 c2 lt pos c3 show ?thesis by blast
qed

theorem C9_witness:
  "main 4 arrivals_done = Inr (done_heap, done_sims, 1, 10)
   \<and> done_sims ! 1 \<in> set done_sims \<and> 2 \<in> set (tickets (done_sims ! 1))
   \<and> rem_at (done_heap ! 2) 1 \<le> rem_at (done_heap ! 2) 0
   \<and> rem_at (done_heap ! 2) 2 \<le> rem_at (done_heap ! 2) 1
   \<and> startday (done_heap ! 2) + leadtime (done_heap ! 2) = 2
   \<and> rem_at (done_heap ! 2) 2 = 0 \<and> rem_at (done_heap ! 2) 3 = 0"
proof -
  have s: "done_sims ! 1 \<in> set done_sims" "2 \<in> set (tickets (done_sims ! 1))"
    by (simp_all add: done_sims_def)
  have e: "0 \<le> effort (done_heap ! 2)"
    "startday (done_heap ! 2) + leadtime (done_heap ! 2) = 2"
    "startday (done_heap ! 2) = 0"
    by (simp_all add: done_heap_def done_ticket_def)
  note t = C9_remaining_trajectory [OF main_arrivals_done s]
  from t have mono: "\<forall>k. startday (done_heap ! 2) \<le> k \<and> k + 1 < 4
      \<longrightarrow> rem_at (done_heap ! 2) (k + 1) \<le> rem_at (done_heap ! 2) k"
    and zero: "0 \<le> effort (done_heap ! 2)
        \<and> startday (done_heap ! 2) + leadtime (done_heap ! 2) < 4 - 1 \<longrightarrow>
      (\<forall>k. startday (done_heap ! 2) + leadtime (done_heap ! 2) \<le> k \<and> k < 4
        \<longrightarrow> rem_at (done_heap ! 2) k = 0)"
    by blast+
  from zero e have z: "\<forall>k. 2 \<le> k \<and> k < 4 \<longrightarrow> rem_at (done_heap ! 2) k = 0" by simp
  have "rem_at (done_heap ! 2) 1 \<le> rem_at (done_heap ! 2) 0"
    "rem_at (done_heap ! 2) 2 \<le> rem_at (done_heap ! 2) 1"
    "rem_at (done_heap ! 2) 2 = 0" "rem_at (done_heap ! 2) 3 = 0"
    using mono [rule_format, of 0] mono [rule_format, of 1] z [rule_format, of 2]
      z [rule_format, of 3] e(3)
    by simp_all
  with main_arrivals_done s e show ?thesis by simp
qed

text \<open>
  Sorting the slice of the population itself would reorder the population: on the two
  tickets of day 1 the comparison of Oldest-then-shortest puts B before A.
\<close>

lemma sort_Slice_mem_population:
  "sort_Slice_mem two_mem (mem_tickets (sim_mem_of BurndownOsjf))
     (less_Osjf_mem 1 (mem_tickets (sim_mem_of BurndownOsjf)))
   = Inr (two_mem\<lparr>arrays := [[Some 1, Some 0, None]]\<rparr>)"
  by code_simp

lemma abs_sim_mem_of: "abs_sim (sim_mem_of f) [0, 1] = sim_of f"
  by (simp add: abs_sim_def sim_mem_of_def sim_of_def)

text \<open>
  C10. A day of any policy, in the memory, on a population whose slice holds the
  pointers \<open>ps\<close>: no array that existed before the day is written, so that the slice of
  the population holds the same pointers in the same order after the day; the only new
  array, which the sorting policies allocate, is the copy, a permutation of the
  population. The ticket objects change as the policy on the pointers changes them:
  nothing outside the population changes, and a ticket of the population keeps its start
  day, its effort and every slot of its trajectory but that of the next day (\<open>endday\<close>
  and \<open>leadtime\<close> may change). Between the days, \<^verbatim>\<open>addTickets\<close> appends the clones of the
  day's tickets, in their order, behind the population and changes no object. At the end
  of a run every population lists its tickets by increasing address, the order in which
  they were allocated, and their start days and efforts are the arrivals in their order
  of arrival.
\<close>

theorem C10_population_order_kept:
  "(pop_at m (mem_tickets sim) ps \<and> pop_ok (objs m) (abs_sim sim ps) day
      \<and> (\<forall>p\<in>set ps. int64_ticket (objs m ! p) day) \<longrightarrow>
      (\<exists>m' hl'. call_burndownaday_mem f m sim day = Inr (m', hl')
         \<and> take (length (arrays m)) (arrays m') = arrays m
         \<and> pop_at m' (mem_tickets sim) ps
         \<and> (\<forall>a. length (arrays m) \<le> a \<and> a < length (arrays m') \<longrightarrow>
               mset (arrays m' ! a) = mset (map Some ps))
         \<and> call_burndownaday f (objs m) (abs_sim sim ps) day = Inr (objs m', hl')
         \<and> length (objs m') = length (objs m)
         \<and> (\<forall>q. q \<notin> set ps \<longrightarrow> objs m' ! q = objs m ! q)
         \<and> (\<forall>q\<in>set ps.
               startday (objs m' ! q) = startday (objs m ! q)
               \<and> effort (objs m' ! q) = effort (objs m ! q)
               \<and> length (remaining (objs m' ! q)) = length (remaining (objs m ! q))
               \<and> (\<forall>k. 0 \<le> k \<and> k \<noteq> day + 1 \<longrightarrow>
                     rem_at (objs m' ! q) k = rem_at (objs m ! q) k))))
   \<and> ((\<forall>t\<in>set ts. t < length h) \<longrightarrow>
        (\<exists>h'. addTickets h s ts =
                Inr (h', s\<lparr>tickets := tickets s @ [length h..<length h + length ts]\<rparr>)
           \<and> length h' = length h + length ts \<and> take (length h) h' = h))
   \<and> (main days arr = Inr (hf, simset, c, e) \<longrightarrow>
        (\<forall>s\<in>set simset. sorted_wrt (<) (tickets s)
           \<and> keys (objects hf s) = arrival_order arr days))"
proof (intro conjI impI)
  assume a: "pop_at m (mem_tickets sim) ps \<and> pop_ok (objs m) (abs_sim sim ps) day
      \<and> (\<forall>p\<in>set ps. int64_ticket (objs m ! p) day)"
  then have at: "pop_at m (mem_tickets sim) ps" and ok: "pop_ok (objs m) (abs_sim sim ps) day"
    and i64: "\<forall>p\<in>set ps. int64_ticket (objs m ! p) day"
    by simp_all
  let ?h = "objs m"
  obtain h' hl' cp where
    r: "call_burndownaday f ?h (abs_sim sim ps) day = Inr (h', hl')"
    "call_burndownaday_mem f m sim day = Inr (m\<lparr>objs := h', arrays := arrays m @ cp\<rparr>, hl')"
    "cp = [] \<or> (\<exists>ys. cp = [map Some ys] \<and> mset ys = mset ps)"
    by (rule policy_mem_refines [OF at ok i64])
  let ?m' = "m\<lparr>objs := h', arrays := arrays m @ cp\<rparr>"
  obtain h2 hl2 where
    e: "call_burndownaday f ?h (abs_sim sim ps) day = Inr (h2, hl2)"
    "day_effect ?h h2 (tickets (abs_sim sim ps)) day"
    by (rule policy_effect [OF ok])
  from e(1) r(1) have "h2 = h'" by simp
  with e(2) have de: "day_effect ?h h' ps day" by simp
  then have l: "length h' = length ?h"
    and fr: "\<forall>q. q \<notin> set ps \<longrightarrow> h' ! q = ?h ! q"
    and bt: "\<forall>p\<in>set ps. h' ! p = burnt (?h ! p) day (spent ?h h' day p)"
    by (simp_all add: day_effect_def)
  have d: "0 \<le> day" if "q \<in> set ps" for q
    using ok that by (auto simp add: pop_ok_def ptrs_ok_def day_ok_def)
  have x: "\<forall>q\<in>set ps.
               startday (h' ! q) = startday (?h ! q) \<and> effort (h' ! q) = effort (?h ! q)
               \<and> length (remaining (h' ! q)) = length (remaining (?h ! q))
               \<and> (\<forall>k. 0 \<le> k \<and> k \<noteq> day + 1 \<longrightarrow> rem_at (h' ! q) k = rem_at (?h ! q) k)"
    using bt d by (simp add: rem_at_burnt_other)
  have c1: "take (length (arrays m)) (arrays ?m') = arrays m" by simp
  have c2: "pop_at ?m' (mem_tickets sim) ps"
    using at by (auto simp add: pop_at_def nth_append)
  have c3: "\<forall>a. length (arrays m) \<le> a \<and> a < length (arrays ?m') \<longrightarrow>
               mset (arrays ?m' ! a) = mset (map Some ps)"
  proof (intro allI impI)
    fix a assume k: "length (arrays m) \<le> a \<and> a < length (arrays ?m')"
    from r(3) show "mset (arrays ?m' ! a) = mset (map Some ps)"
    proof
      assume "cp = []"
      with k have False by auto
      then show ?thesis ..
    next
      assume "\<exists>ys. cp = [map Some ys] \<and> mset ys = mset ps"
      then obtain ys where ys: "cp = [map Some ys]" "mset ys = mset ps" by blast
      from k ys(1) have "a = length (arrays m)" by simp
      then show ?thesis by (simp add: ys)
    qed
  qed
  show "\<exists>m' hl'. call_burndownaday_mem f m sim day = Inr (m', hl')
         \<and> take (length (arrays m)) (arrays m') = arrays m
         \<and> pop_at m' (mem_tickets sim) ps
         \<and> (\<forall>a. length (arrays m) \<le> a \<and> a < length (arrays m') \<longrightarrow>
               mset (arrays m' ! a) = mset (map Some ps))
         \<and> call_burndownaday f (objs m) (abs_sim sim ps) day = Inr (objs m', hl')
         \<and> length (objs m') = length (objs m)
         \<and> (\<forall>q. q \<notin> set ps \<longrightarrow> objs m' ! q = objs m ! q)
         \<and> (\<forall>q\<in>set ps.
               startday (objs m' ! q) = startday (objs m ! q)
               \<and> effort (objs m' ! q) = effort (objs m ! q)
               \<and> length (remaining (objs m' ! q)) = length (remaining (objs m ! q))
               \<and> (\<forall>k. 0 \<le> k \<and> k \<noteq> day + 1 \<longrightarrow>
                     rem_at (objs m' ! q) k = rem_at (objs m ! q) k))"
  proof (intro exI conjI)
    show "call_burndownaday_mem f m sim day = Inr (?m', hl')" by (rule r(2))
    show "take (length (arrays m)) (arrays ?m') = arrays m" by (rule c1)
    show "pop_at ?m' (mem_tickets sim) ps" by (rule c2)
    show "\<forall>a. length (arrays m) \<le> a \<and> a < length (arrays ?m') \<longrightarrow>
               mset (arrays ?m' ! a) = mset (map Some ps)" by (rule c3)
    show "call_burndownaday f (objs m) (abs_sim sim ps) day = Inr (objs ?m', hl')"
      using r(1) by simp
    show "length (objs ?m') = length (objs m)" using l by simp
    show "\<forall>q. q \<notin> set ps \<longrightarrow> objs ?m' ! q = objs m ! q" using fr by simp
    show "\<forall>q\<in>set ps.
               startday (objs ?m' ! q) = startday (objs m ! q)
               \<and> effort (objs ?m' ! q) = effort (objs m ! q)
               \<and> length (remaining (objs ?m' ! q)) = length (remaining (objs m ! q))
               \<and> (\<forall>k. 0 \<le> k \<and> k \<noteq> day + 1 \<longrightarrow>
                     rem_at (objs ?m' ! q) k = rem_at (objs m ! q) k)"
      using x by simp
  qed
next
  assume v: "\<forall>t\<in>set ts. t < length h"
  show "\<exists>h'. addTickets h s ts =
                Inr (h', s\<lparr>tickets := tickets s @ [length h..<length h + length ts]\<rparr>)
           \<and> length h' = length h + length ts \<and> take (length h) h' = h"
    by (simp add: addTickets_eq [OF v])
next
  assume r: "main days arr = Inr (hf, simset, c, e)"
  from main_cases [of days arr] r have "main_inv arr days days hf simset" by auto
  then show "\<forall>s\<in>set simset. sorted_wrt (<) (tickets s)
           \<and> keys (objects hf s) = arrival_order arr days"
    by (simp add: main_inv_def)
qed

theorem C10_witness:
  "pop_at two_mem (mem_tickets (sim_mem_of BurndownOsjf)) [0, 1]
   \<and> pop_ok (objs two_mem) (abs_sim (sim_mem_of BurndownOsjf) [0, 1]) 1
   \<and> int64_ticket (objs two_mem ! 0) 1 \<and> int64_ticket (objs two_mem ! 1) 1
   \<and> (\<exists>m' hl'. call_burndownaday_mem BurndownOsjf two_mem (sim_mem_of BurndownOsjf) 1
           = Inr (m', hl')
         \<and> arrays m' = [[Some 0, Some 1, None], [Some 1, Some 0]]
         \<and> take 1 (arrays m') = arrays two_mem
         \<and> pop_at m' (mem_tickets (sim_mem_of BurndownOsjf)) [0, 1]
         \<and> map startday (objs m') = [0, 1] \<and> map effort (objs m') = [20, 3])
   \<and> addTickets two_tickets (sim_of BurndownOsjf) [1] =
       Inr (two_tickets @ [clone_of (two_tickets ! 1)],
            sim_of BurndownOsjf\<lparr>tickets := [0, 1, 2]\<rparr>)
   \<and> (\<exists>hf simset c e. main 3 arrivals_ab = Inr (hf, simset, c, e)
         \<and> tickets (simset ! 3) = [4, 10]
         \<and> keys (objects hf (simset ! 3)) = [(0, 20), (1, 3)])
   \<and> arrival_order arrivals_ab 3 = [(0, 20), (1, 3)]"
proof -
  let ?sim = "sim_mem_of BurndownOsjf"
  have h1: "pop_at two_mem (mem_tickets ?sim) [0, 1]"
    by (simp add: pop_at_def two_mem_def sim_mem_of_def make_ok_def maxAlloc_def)
  have o: "objs two_mem = two_tickets" by (simp add: two_mem_def)
  have h2: "pop_ok (objs two_mem) (abs_sim ?sim [0, 1]) 1"
    by (simp only: o abs_sim_mem_of pop_ok_two_tickets)
  have h3: "int64_ticket (objs two_mem ! 0) 1" "int64_ticket (objs two_mem ! 1) 1"
    by (simp_all add: int64_ticket_def int64_def two_mem_def two_tickets_def rem_at_def)
  have h4: "\<forall>p\<in>set [0, 1]. int64_ticket (objs two_mem ! p) 1" using h3 by simp
  have ao: "arrival_order arrivals_ab 3 = [(0, 20), (1, 3)]"
    by code_simp
  have ev: "call_burndownaday_mem BurndownOsjf two_mem ?sim 1 =
      Inr (\<lparr>objs =
         [\<lparr>startday = 0, leadtime = 2, endday = 1, effort = 20, remaining = [20, 12, 7]\<rparr>,
          \<lparr>startday = 1, leadtime = 1, endday = 1, effort = 3, remaining = [0, 3, 0]\<rparr>],
         arrays = [[Some 0, Some 1, None], [Some 1, Some 0]]\<rparr>, 0)"
    by code_simp
  let ?hf = "[\<lparr>startday = 0, leadtime = 0, endday = 0, effort = 20, remaining = [20, 0, 0]\<rparr>,
       \<lparr>startday = 0, leadtime = 2, endday = 1, effort = 20, remaining = [20, 14, 10]\<rparr>,
       \<lparr>startday = 0, leadtime = 2, endday = 1, effort = 20, remaining = [20, 12, 4]\<rparr>,
       \<lparr>startday = 0, leadtime = 2, endday = 1, effort = 20, remaining = [20, 12, 7]\<rparr>,
       \<lparr>startday = 0, leadtime = 2, endday = 1, effort = 20, remaining = [20, 12, 7]\<rparr>,
       \<lparr>startday = 0, leadtime = 2, endday = 1, effort = 20, remaining = [20, 12, 7]\<rparr>,
       \<lparr>startday = 1, leadtime = 0, endday = 0, effort = 3, remaining = [0, 3, 0]\<rparr>,
       \<lparr>startday = 1, leadtime = 1, endday = 1, effort = 3, remaining = [0, 3, 3]\<rparr>,
       \<lparr>startday = 1, leadtime = 1, endday = 1, effort = 3, remaining = [0, 3, 3]\<rparr>,
       \<lparr>startday = 1, leadtime = 1, endday = 1, effort = 3, remaining = [0, 3, 0]\<rparr>,
       \<lparr>startday = 1, leadtime = 1, endday = 1, effort = 3, remaining = [0, 3, 0]\<rparr>,
       \<lparr>startday = 1, leadtime = 1, endday = 1, effort = 3, remaining = [0, 3, 0]\<rparr>]"
  let ?ss = "[\<lparr>name = ''Equal working'', burndownaday = BurndownMaxWip, tickets = [1, 7]\<rparr>,
       \<lparr>name = ''Oldest first'', burndownaday = BurndownOldestFirst, tickets = [2, 8]\<rparr>,
       \<lparr>name = ''Shortest first'', burndownaday = BurndownSjf, tickets = [3, 9]\<rparr>,
       \<lparr>name = ''Oldest, shortest first'', burndownaday = BurndownOsjf, tickets = [4, 10]\<rparr>,
       \<lparr>name = ''Age weighted, shortest first'', burndownaday = BurndownAwsjf,
          tickets = [5, 11]\<rparr>]"
  have mn: "main 3 arrivals_ab = Inr (?hf, ?ss, 2, 23)"
    by code_simp
  have v: "\<forall>t\<in>set [1]. t < length two_tickets" by (simp add: two_tickets_def)
  note t = C10_population_order_kept [where m = two_mem and sim = ?sim and ps = "[0, 1]"
      and day = 1 and f = BurndownOsjf and ts = "[1]" and h = two_tickets
      and s = "sim_of BurndownOsjf" and days = 3 and arr = arrivals_ab
      and hf = ?hf and simset = ?ss and c = 2 and e = 23]
  from t h1 h2 h4 obtain m' hl' where
    a: "call_burndownaday_mem BurndownOsjf two_mem ?sim 1 = Inr (m', hl')"
    "take (length (arrays two_mem)) (arrays m') = arrays two_mem"
    "pop_at m' (mem_tickets ?sim) [0, 1]"
    by blast
  from a(1) ev have m': "m' = \<lparr>objs =
         [\<lparr>startday = 0, leadtime = 2, endday = 1, effort = 20, remaining = [20, 12, 7]\<rparr>,
          \<lparr>startday = 1, leadtime = 1, endday = 1, effort = 3, remaining = [0, 3, 0]\<rparr>],
         arrays = [[Some 0, Some 1, None], [Some 1, Some 0]]\<rparr>" by simp
  have p1: "\<exists>m' hl'. call_burndownaday_mem BurndownOsjf two_mem ?sim 1 = Inr (m', hl')
         \<and> arrays m' = [[Some 0, Some 1, None], [Some 1, Some 0]]
         \<and> take 1 (arrays m') = arrays two_mem
         \<and> pop_at m' (mem_tickets ?sim) [0, 1]
         \<and> map startday (objs m') = [0, 1] \<and> map effort (objs m') = [20, 3]"
    using a by (intro exI [of _ m'] exI [of _ hl']) (simp add: m' two_mem_def)
  from t v have "\<exists>h'. addTickets two_tickets (sim_of BurndownOsjf) [1] =
       Inr (h', sim_of BurndownOsjf\<lparr>tickets := tickets (sim_of BurndownOsjf)
              @ [length two_tickets..<length two_tickets + length [1::nat]]\<rparr>)
       \<and> length h' = length two_tickets + length [1::nat]
       \<and> take (length two_tickets) h' = two_tickets"
    by blast
  moreover have "addTickets two_tickets (sim_of BurndownOsjf) [1] =
       Inr (two_tickets @ [clone_of (two_tickets ! 1)],
            sim_of BurndownOsjf\<lparr>tickets := [0, 1, 2]\<rparr>)"
    by code_simp
  ultimately have p2: "addTickets two_tickets (sim_of BurndownOsjf) [1] =
       Inr (two_tickets @ [clone_of (two_tickets ! 1)],
            sim_of BurndownOsjf\<lparr>tickets := [0, 1, 2]\<rparr>)" by simp
  from t mn have "\<forall>s\<in>set ?ss. sorted_wrt (<) (tickets s)
      \<and> keys (objects ?hf s) = arrival_order arrivals_ab 3" by blast
  then have "keys (objects ?hf (?ss ! 3)) = arrival_order arrivals_ab 3" by simp
  with mn ao have p3: "\<exists>hf simset c e. main 3 arrivals_ab = Inr (hf, simset, c, e)
         \<and> tickets (simset ! 3) = [4, 10]
         \<and> keys (objects hf (simset ! 3)) = [(0, 20), (1, 3)]"
    by (intro exI [of _ ?hf] exI [of _ ?ss] exI [of _ 2] exI [of _ 23]) simp
  from h1 h2 h3 p1 p2 p3 ao show ?thesis by (intro conjI)
qed

end
